theory Spec2Isabelle
  imports Complex_Main
begin

section \<open>Numbers, strings and object literals of the source\<close>

text \<open>
  The program is TypeScript. Its \<open>number\<close> values are IEEE doubles; they are modelled as
  the reals they denote. Three kinds of arithmetic occur:
  \<^item> on timestamps and clock readings, whole milliseconds far below \<open>2^53\<close>, where
    double arithmetic is exact: written with the operations of \<^typ>\<open>real\<close>;
  \<^item> on the random draws of the fallback pose, read over exact reals;
  \<^item> in the interpolation of poses, where every operation rounds its result to the
    nearest double: written with \<open>fadd\<close>, \<open>fsub\<close>, \<open>fmul\<close>, \<open>fdiv\<close> below.
  Strings are \<^typ>\<open>string\<close>, for ASCII text: \<open>toLowerCase\<close> maps the letters
  \<open>A\<close>..\<open>Z\<close> and leaves every other character alone (what JavaScript does to letters
  outside ASCII is not modelled).

  \<open>Math.random()\<close> and \<open>Date.now()\<close> are inputs of the model: the \<open>k\<close>-th call of
  \<open>Math.random()\<close> made by a function returns \<open>rand k\<close>, and every reading of the clock
  is an argument named \<open>now\<close>.
\<close>

subsection \<open>Double arithmetic\<close>

text \<open>
  \<open>expo x\<close> is the binary exponent of \<open>x \<noteq> 0\<close>, the \<open>k\<close> with \<open>2^k \<le> |x| < 2^(k+1)\<close>,
  found by halving or doubling. \<open>fl x\<close> rounds \<open>x\<close> to 53 significant bits, to the nearest
  such number and to the one with an even last bit when two are equally near. That is
  the rounding of double arithmetic for every result of normal size (from \<open>2^-1022\<close> up to
  the largest double) and for 0; overflow to infinity, NaN and the coarser subnormal
  numbers are outside the model.
\<close>

function expo_ge :: "real \<Rightarrow> int" where
  "expo_ge x = (if x < 2 then 0 else expo_ge (x / 2) + 1)"
  by pat_completeness auto
termination
proof (relation "measure (\<lambda>x. nat \<lfloor>x\<rfloor>)")
  show "wf (measure (\<lambda>x::real. nat \<lfloor>x\<rfloor>))" by simp
next
  fix x :: real
  assume large: "\<not> x < 2"
  then have "x / 2 \<le> x - 1" by simp
  then have "\<lfloor>x / 2\<rfloor> \<le> \<lfloor>x - 1\<rfloor>" by (rule floor_mono)
  moreover have "1 \<le> \<lfloor>x\<rfloor>" using large by linarith
  ultimately show "(x / 2, x) \<in> measure (\<lambda>x. nat \<lfloor>x\<rfloor>)" by simp
qed

function expo_lt :: "real \<Rightarrow> int" where
  "expo_lt x = (if x \<le> 0 \<or> 1 \<le> x then 0 else expo_lt (x * 2) - 1)"
  by pat_completeness auto
termination
proof (relation "measure (\<lambda>x. nat \<lceil>1 / x\<rceil>)")
  show "wf (measure (\<lambda>x::real. nat \<lceil>1 / x\<rceil>))" by simp
next
  fix x :: real
  assume "\<not> (x \<le> 0 \<or> 1 \<le> x)"
  then have x: "0 < x" "x < 1" by simp_all
  then have y: "1 < 1 / x" by simp
  have "\<lceil>1 / (x * 2)\<rceil> < \<lceil>1 / x\<rceil>"
  proof (cases "1 / x \<le> 2")
    case True
    then have "1 / (x * 2) \<le> of_int 1" using x by (simp add: field_simps)
    then have "\<lceil>1 / (x * 2)\<rceil> \<le> 1" by (rule ceiling_le)
    moreover have "of_int 1 < 1 / x" using y by simp
    then have "1 < \<lceil>1 / x\<rceil>" by (simp only: less_ceiling_iff)
    ultimately show ?thesis by linarith
  next
    case False
    then have "1 / (x * 2) \<le> 1 / x - 1" using x by (simp add: field_simps)
    then have "\<lceil>1 / (x * 2)\<rceil> \<le> \<lceil>1 / x - 1\<rceil>" by (rule ceiling_mono)
    then show ?thesis by simp
  qed
  moreover have "0 < \<lceil>1 / x\<rceil>" using y by linarith
  ultimately show "(x * 2, x) \<in> measure (\<lambda>x. nat \<lceil>1 / x\<rceil>)" by simp
qed

declare expo_ge.simps [simp del] expo_lt.simps [simp del]

definition expo :: "real \<Rightarrow> int" where
  "expo x = (if 1 \<le> \<bar>x\<bar> then expo_ge \<bar>x\<bar> else expo_lt \<bar>x\<bar>)"

definition round_even :: "real \<Rightarrow> int" where
  "round_even y =
     (let f = \<lfloor>y\<rfloor>; d = y - of_int f
      in if d < 1 / 2 then f else if d > 1 / 2 then f + 1 else if even f then f else f + 1)"

definition fl :: "real \<Rightarrow> real" where
  "fl x =
     (if x = 0 then 0
      else of_int (round_even (x / 2 powi (expo x - 52))) * 2 powi (expo x - 52))"

definition fadd :: "real \<Rightarrow> real \<Rightarrow> real" where
  "fadd a b = fl (a + b)"

definition fsub :: "real \<Rightarrow> real \<Rightarrow> real" where
  "fsub a b = fl (a - b)"

definition fmul :: "real \<Rightarrow> real \<Rightarrow> real" where
  "fmul a b = fl (a * b)"

definition fdiv :: "real \<Rightarrow> real \<Rightarrow> real" where
  "fdiv a b = fl (a / b)"

subsection \<open>Strings and object literals\<close>

definition toLowerChar :: "char \<Rightarrow> char" where
  "toLowerChar c =
     (case map_of (zip ''ABCDEFGHIJKLMNOPQRSTUVWXYZ'' ''abcdefghijklmnopqrstuvwxyz'') c of
        Some l \<Rightarrow> l
      | None \<Rightarrow> c)"

definition toLowerCase :: "string \<Rightarrow> string" where
  "toLowerCase s = map toLowerChar s"

text \<open>
  \<open>s.split(' ')\<close>: the pieces between single spaces, empty pieces kept, so that the
  empty string splits into one empty word.
\<close>

fun split_sp :: "string \<Rightarrow> string list" where
  "split_sp [] = [[]]"
| "split_sp (c # cs) =
     (if c = CHR '' '' then [] # split_sp cs
      else (case split_sp cs of [] \<Rightarrow> [[c]] | w # ws \<Rightarrow> (c # w) # ws))"

text \<open>
  Both tables of the source are object literals indexed with \<open>table[key]\<close>. Such a read
  finds the literal's own properties and, failing that, the properties every object
  inherits from \<open>Object.prototype\<close>; only when both fail is the value \<open>undefined\<close>.
\<close>

datatype 'a property = Own 'a | Inherited string | Undefined

definition objectPrototypeKeys :: "string list" where
  "objectPrototypeKeys =
     [''constructor'', ''__proto__'', ''hasOwnProperty'', ''isPrototypeOf'',
      ''propertyIsEnumerable'', ''toLocaleString'', ''toString'', ''valueOf'',
      ''__defineGetter__'', ''__defineSetter__'', ''__lookupGetter__'', ''__lookupSetter__'']"

definition getProperty :: "(string \<times> 'a) list \<Rightarrow> string \<Rightarrow> 'a property" where
  "getProperty table k =
     (case map_of table k of
        Some v \<Rightarrow> Own v
      | None \<Rightarrow> if k \<in> set objectPrototypeKeys then Inherited k else Undefined)"

section \<open>Data model (types)\<close>

datatype expression = neutral | happy | questioning

record poseComponent =
  arm_x :: real
  arm_y :: real
  arm_rotation :: real

record headPose =
  head_rotation :: real

record gesture =
  g_leftArm :: poseComponent
  g_rightArm :: poseComponent
  g_head :: headPose

text \<open>
  A keyframe as it exists at run time: \<open>textToAnimation\<close> builds it by spreading a
  gesture object into it, so the three pose fields are there exactly when the spread
  object has them (\<open>None\<close> is a missing field).
\<close>

record keyframe =
  timestamp :: real
  leftArm :: "poseComponent option"
  rightArm :: "poseComponent option"
  head :: "headPose option"
  expression :: expression

record animation =
  name :: string
  keyframes :: "keyframe list"
  duration :: real

record gestureData =
  landmarks :: "real list list"
  confidence :: real
  gesture :: string

section \<open>KeyframeSynthesizer: \<open>AvatarService.textToAnimation\<close>\<close>

definition arm :: "real \<Rightarrow> real \<Rightarrow> real \<Rightarrow> poseComponent" where
  "arm a b r = \<lparr>arm_x = a, arm_y = b, arm_rotation = r\<rparr>"

definition mkGesture :: "poseComponent \<Rightarrow> poseComponent \<Rightarrow> real \<Rightarrow> gesture" where
  "mkGesture l r h = \<lparr>g_leftArm = l, g_rightArm = r, g_head = \<lparr>head_rotation = h\<rparr>\<rparr>"

definition gestures :: "(string \<times> gesture) list" where
  "gestures =
     [(''hello'', mkGesture (arm (-30) (-20) 45) (arm 30 (-20) (-45)) 0),
      (''help'', mkGesture (arm 0 (-30) 0) (arm 0 (-30) 0) 5),
      (''thank'', mkGesture (arm (-20) (-10) 30) (arm 20 (-10) (-30)) (-5)),
      (''you'', mkGesture (arm 0 0 0) (arm 15 (-15) (-20)) 0),
      (''good'', mkGesture (arm (-25) (-25) 60) (arm 25 (-25) (-60)) 0)]"

text \<open>
  The fallback object literal of \<open>getGestureForWord\<close> calls \<open>Math.random()\<close> seven
  times, in the order its fields are written; \<open>n\<close> counts the calls made so far.
\<close>

definition randomGesture :: "(nat \<Rightarrow> real) \<Rightarrow> nat \<Rightarrow> gesture" where
  "randomGesture rand n =
     mkGesture
       (arm (rand n * 40 - 20) (rand (n + 1) * 20 - 10) (rand (n + 2) * 60 - 30))
       (arm (rand (n + 3) * 40 - 20) (rand (n + 4) * 20 - 10) (rand (n + 5) * 60 - 30))
       (rand (n + 6) * 20 - 10)"

text \<open>
  \<open>gestures[word] || { ... }\<close>: an own entry or an inherited property is truthy and is
  returned as it is, without drawing random numbers; an inherited property is a function
  or \<open>Object.prototype\<close>, an object with no enumerable field of its own, here \<open>None\<close>.
\<close>

definition getGestureForWord :: "(nat \<Rightarrow> real) \<Rightarrow> nat \<Rightarrow> string \<Rightarrow> gesture option \<times> nat" where
  "getGestureForWord rand n word =
     (case getProperty gestures word of
        Own g \<Rightarrow> (Some g, n)
      | Inherited k \<Rightarrow> (None, n)
      | Undefined \<Rightarrow> (Some (randomGesture rand n), n + 7))"

definition getExpressionForWord :: "string \<Rightarrow> expression" where
  "getExpressionForWord word =
     (if word \<in> set [''good'', ''great'', ''wonderful'', ''happy'', ''thank''] then happy
      else if word \<in> set [''what'', ''how'', ''why'', ''when'', ''where'', ''?''] then questioning
      else neutral)"

definition restKeyframe :: "real \<Rightarrow> keyframe" where
  "restKeyframe t =
     \<lparr>timestamp = t, leftArm = Some (arm 0 0 0), rightArm = Some (arm 0 0 0),
      head = Some \<lparr>head_rotation = 0\<rparr>, expression = neutral\<rparr>"

text \<open>\<open>{ timestamp: currentTime, ...gesture, expression: ... }\<close>\<close>

definition wordKeyframe :: "real \<Rightarrow> gesture option \<Rightarrow> expression \<Rightarrow> keyframe" where
  "wordKeyframe t g e =
     \<lparr>timestamp = t, leftArm = map_option g_leftArm g, rightArm = map_option g_rightArm g,
      head = map_option g_head g, expression = e\<rparr>"

text \<open>
  The body of \<open>words.forEach\<close>: the state of the loop is the clock \<open>currentTime\<close>, the
  number of random draws made and the keyframes pushed so far.
\<close>

fun forEachWord ::
  "(nat \<Rightarrow> real) \<Rightarrow> string list \<Rightarrow> real \<times> nat \<times> keyframe list \<Rightarrow> real \<times> nat \<times> keyframe list"
where
  "forEachWord rand [] st = st"
| "forEachWord rand (word # ws) (currentTime, n, kfs) =
     (let currentTime' = currentTime + 500;
          (g, n') = getGestureForWord rand n word
      in forEachWord rand ws
           (currentTime', n', kfs @ [wordKeyframe currentTime' g (getExpressionForWord word)]))"

definition textToAnimation :: "(nat \<Rightarrow> real) \<Rightarrow> string \<Rightarrow> animation" where
  "textToAnimation rand text =
     (let ws = split_sp (toLowerCase text);
          (currentTime, n, kfs) = forEachWord rand ws (0, 0, [restKeyframe 0]);
          currentTime' = currentTime + 500
      in \<lparr>name = ''text-response'', keyframes = kfs @ [restKeyframe currentTime'],
          duration = currentTime'\<rparr>)"

section \<open>AnimationPlayer: interpolation\<close>

text \<open>
  Exceptions of the source are values: a \<open>TypeError\<close> is raised by reading a property of
  \<open>null\<close> or \<open>undefined\<close>, \<open>Error msg\<close> is \<open>throw new Error(msg)\<close>.
\<close>

datatype error = TypeError | Error string

text \<open>
  The search loop of \<open>interpolatePose\<close>: \<open>for (let i = 0; i < keyframes.length - 1; i++)\<close>,
  leaving at the first pair with \<open>keyframes[i].timestamp \<le> elapsed \<le> keyframes[i + 1].timestamp\<close>.
  \<open>None\<close> is the loop running to its end without a match.
\<close>

function findBracket :: "real \<Rightarrow> keyframe list \<Rightarrow> nat \<Rightarrow> (keyframe \<times> keyframe) option" where
  "findBracket elapsed kfs i =
     (if i + 1 < length kfs then
        (if elapsed \<ge> timestamp (kfs ! i) \<and> elapsed \<le> timestamp (kfs ! (i + 1))
         then Some (kfs ! i, kfs ! (i + 1))
         else findBracket elapsed kfs (i + 1))
      else None)"
  by pat_completeness auto
termination
  by (relation "measure (\<lambda>(elapsed, kfs, i). length kfs - i)") auto

declare findBracket.simps [simp del]

text \<open>
  \<open>prevFrame\<close> and \<open>nextFrame\<close> start as the first and the last keyframe and are
  overwritten by the loop when it finds a pair. The list is not empty here.
\<close>

definition surroundingKeyframes :: "real \<Rightarrow> keyframe list \<Rightarrow> keyframe \<times> keyframe" where
  "surroundingKeyframes elapsed kfs =
     (case findBracket elapsed kfs 0 of
        Some pn \<Rightarrow> pn
      | None \<Rightarrow> (kfs ! 0, kfs ! (length kfs - 1)))"

text \<open>
  \<open>duration > 0 ? (elapsed - prevFrame.timestamp) / duration : 0\<close> and
  \<open>prev + (next - prev) * progress\<close>, each operation rounding as the code's does.
\<close>

definition progressAt :: "real \<Rightarrow> keyframe \<Rightarrow> keyframe \<Rightarrow> real" where
  "progressAt elapsed prevFrame nextFrame =
     (let duration = fsub (timestamp nextFrame) (timestamp prevFrame)
      in if duration > 0 then fdiv (fsub elapsed (timestamp prevFrame)) duration else 0)"

definition lerpArm :: "poseComponent \<Rightarrow> poseComponent \<Rightarrow> real \<Rightarrow> poseComponent" where
  "lerpArm p q progress =
     \<lparr>arm_x = fadd (arm_x p) (fmul (fsub (arm_x q) (arm_x p)) progress),
      arm_y = fadd (arm_y p) (fmul (fsub (arm_y q) (arm_y p)) progress),
      arm_rotation =
        fadd (arm_rotation p) (fmul (fsub (arm_rotation q) (arm_rotation p)) progress)\<rparr>"

definition lerpHead :: "headPose \<Rightarrow> headPose \<Rightarrow> real \<Rightarrow> headPose" where
  "lerpHead p q progress =
     \<lparr>head_rotation =
        fadd (head_rotation p) (fmul (fsub (head_rotation q) (head_rotation p)) progress)\<rparr>"

text \<open>
  \<open>interpolatePose\<close>. With no current animation the source evaluates
  \<open>this.currentAnimation!.keyframes[0]\<close> on \<open>null\<close>; with no keyframe, \<open>prevFrame\<close> is
  \<open>undefined\<close> and \<open>prevFrame.timestamp\<close> is read; with a pose field missing,
  \<open>prevFrame.leftArm.x\<close> (and so on) is read from \<open>undefined\<close>. All three throw.
\<close>

definition interpolatePose :: "animation option \<Rightarrow> real \<Rightarrow> error + keyframe" where
  "interpolatePose currentAnimation elapsed =
     (case currentAnimation of
        None \<Rightarrow> Inl TypeError
      | Some a \<Rightarrow>
          if keyframes a = [] then Inl TypeError
          else
            (let (prevFrame, nextFrame) = surroundingKeyframes elapsed (keyframes a);
                 progress = progressAt elapsed prevFrame nextFrame
             in case (leftArm prevFrame, leftArm nextFrame, rightArm prevFrame,
                      rightArm nextFrame, head prevFrame, head nextFrame) of
                  (Some pl, Some nl, Some pr, Some nr, Some ph, Some nh) \<Rightarrow>
                    Inr \<lparr>timestamp = elapsed,
                         leftArm = Some (lerpArm pl nl progress),
                         rightArm = Some (lerpArm pr nr progress),
                         head = Some (lerpHead ph nh progress),
                         expression =
                           (if progress < 0.5 then expression prevFrame
                            else expression nextFrame)\<rparr>
                | _ \<Rightarrow> Inl TypeError))"

section \<open>AnimationPlayer: playback\<close>

text \<open>
  The state of the \<open>AvatarService\<close> object, together with the part of the browser it
  acts on: \<open>scheduled\<close> holds the \<open>animate\<close> callbacks handed to
  \<open>requestAnimationFrame\<close> and not yet run, each named by the number of the
  \<open>playAnimation\<close> call that created it; \<open>resolved\<close> the calls whose promise has been
  resolved; \<open>rendered\<close> the poses passed to \<open>drawAvatar\<close>, oldest first; \<open>thrown\<close> the
  exceptions that left a callback. \<open>canvasReady\<close> is \<open>this.ctx && this.canvas\<close>.
\<close>

record player =
  canvasReady :: bool
  currentAnimation :: "animation option"
  animationStartTime :: real
  isAnimating :: bool
  calls :: nat
  scheduled :: "nat list"
  resolved :: "nat list"
  rendered :: "keyframe list"
  thrown :: "error list"

definition newPlayer :: player where
  "newPlayer =
     \<lparr>canvasReady = False, currentAnimation = None, animationStartTime = 0,
      isAnimating = False, calls = 0, scheduled = [], resolved = [], rendered = [],
      thrown = []\<rparr>"

definition initializeCanvas :: "player \<Rightarrow> player" where
  "initializeCanvas s = s\<lparr>canvasReady := True\<rparr>"

definition renderFrame :: "real \<Rightarrow> player \<Rightarrow> error + player" where
  "renderFrame elapsed s =
     (if \<not> canvasReady s \<or> currentAnimation s = None then Inr s
      else (case interpolatePose (currentAnimation s) elapsed of
              Inl e \<Rightarrow> Inl e
            | Inr pose \<Rightarrow> Inr (s\<lparr>rendered := rendered s @ [pose]\<rparr>)))"

text \<open>
  One run of the closure \<open>animate\<close> of call \<open>c\<close>, the clock reading \<open>now\<close>.
\<close>

definition animate :: "nat \<Rightarrow> real \<Rightarrow> player \<Rightarrow> error + player" where
  "animate c now s =
     (case (isAnimating s, currentAnimation s) of
        (True, Some a) \<Rightarrow>
          (let elapsed = now - animationStartTime s
           in if elapsed \<ge> duration a
              then Inr (s\<lparr>isAnimating := False, resolved := resolved s @ [c]\<rparr>)
              else (case renderFrame elapsed s of
                      Inl e \<Rightarrow> Inl e
                    | Inr s' \<Rightarrow> Inr (s'\<lparr>scheduled := scheduled s' @ [c]\<rparr>)))
      | _ \<Rightarrow> Inr (s\<lparr>resolved := resolved s @ [c]\<rparr>))"

text \<open>
  \<open>playAnimation\<close>: the promise's executor sets the three fields and runs \<open>animate\<close>
  once at once; \<open>now\<close> and \<open>now'\<close> are its two readings of the clock. An exception
  inside the executor rejects the promise and leaves the fields as set.
\<close>

definition playAnimation :: "animation \<Rightarrow> real \<Rightarrow> real \<Rightarrow> player \<Rightarrow> player" where
  "playAnimation a now now' s =
     (let c = calls s;
          s1 = s\<lparr>currentAnimation := Some a, animationStartTime := now, isAnimating := True,
                 calls := c + 1\<rparr>
      in case animate c now' s1 of
           Inl e \<Rightarrow> s1\<lparr>thrown := thrown s1 @ [e]\<rparr>
         | Inr s2 \<Rightarrow> s2)"

definition stopAnimation :: "player \<Rightarrow> player" where
  "stopAnimation s = s\<lparr>isAnimating := False\<rparr>"

text \<open>
  The browser runs the scheduled callback of call \<open>c\<close>, if there is one. A callback is
  run once; it is scheduled again only if it asks for it.
\<close>

definition fire :: "nat \<Rightarrow> real \<Rightarrow> player \<Rightarrow> player" where
  "fire c now s =
     (if c \<in> set (scheduled s) then
        (let s1 = s\<lparr>scheduled := remove1 c (scheduled s)\<rparr>
         in case animate c now s1 of
              Inl e \<Rightarrow> s1\<lparr>thrown := thrown s1 @ [e]\<rparr>
            | Inr s2 \<Rightarrow> s2)
      else s)"

datatype event = Play animation real real | Fire nat real | Stop

fun step :: "player \<Rightarrow> event \<Rightarrow> player" where
  "step s (Play a now now') = playAnimation a now now' s"
| "step s (Fire c now) = fire c now s"
| "step s Stop = stopAnimation s"

definition run :: "player \<Rightarrow> event list \<Rightarrow> player" where
  "run s es = foldl step s es"

fun isPlay :: "event \<Rightarrow> bool" where
  "isPlay (Play a now now') = True"
| "isPlay (Fire c now) = False"
| "isPlay Stop = False"

section \<open>GestureClassifier: \<open>GestureRecognitionService\<close>\<close>

text \<open>
  \<open>modelLoaded\<close> is \<open>this.model !== null\<close>. \<open>doInitialize\<close> awaits the TensorFlow
  runtime and builds the model; \<open>failure\<close> is the exception one of the two throws, if
  any. Without one the two fields are set; a failure is thrown again and leaves them as
  they were. The promise \<open>initialize\<close> keeps for calls that overlap is not part of the
  model: calls are taken one after the other.
\<close>

record service =
  initialized :: bool
  modelLoaded :: bool

definition newService :: service where
  "newService = \<lparr>initialized = False, modelLoaded = False\<rparr>"

definition initialize :: "error option \<Rightarrow> service \<Rightarrow> error + service" where
  "initialize failure svc =
     (if initialized svc then Inr svc
      else (case failure of
              None \<Rightarrow> Inr (svc\<lparr>modelLoaded := True, initialized := True\<rparr>)
            | Some e \<Rightarrow> Inl e))"

text \<open>
  The video element: \<open>videoWidth\<close> and \<open>videoHeight\<close> are the intrinsic size of the
  frame, \<open>width\<close> and \<open>height\<close> the element's own attributes (all unsigned).
\<close>

record videoElement =
  videoWidth :: nat
  videoHeight :: nat
  width :: nat
  height :: nat

definition extractHandLandmarks :: "videoElement \<Rightarrow> real \<Rightarrow> real list list" where
  "extractHandLandmarks v now =
     (let time = now * 0.001
      in map (\<lambda>i.
           let baseX = real (width v) * 0.5;
               baseY = real (height v) * 0.5;
               radius = 50 + sin (time + real i) * 20;
               angle = (real i / 21) * pi * 2 + time * 0.5
           in [baseX + cos angle * radius, baseY + sin angle * radius]) [0..<21])"

definition gestureLabels :: "string list" where
  "gestureLabels =
     [''hello'', ''thank you'', ''please'', ''yes'', ''no'',
      ''help'', ''good'', ''bad'', ''more'', ''stop'']"

text \<open>
  \<open>gestures[Math.floor(Math.random() * gestures.length)]\<close>; \<open>Math.random()\<close> returns
  \<open>r\<close> with \<open>0 \<le> r < 1\<close>, which keeps the index inside the list.
\<close>

definition simulateGestureRecognition :: "real list list \<Rightarrow> real \<Rightarrow> string" where
  "simulateGestureRecognition lms r =
     gestureLabels ! nat \<lfloor>r * real (length gestureLabels)\<rfloor>"

text \<open>
  \<open>processFrame\<close> of the service: \<open>Inl\<close> is the exception it throws, \<open>Inr None\<close> the
  result \<open>null\<close>. \<open>rand 0\<close> picks the label and \<open>rand 1\<close> the confidence, in the order
  of the calls. Nothing inside the \<open>try\<close> block throws.
\<close>

definition processFrame ::
  "service \<Rightarrow> videoElement \<Rightarrow> real \<Rightarrow> (nat \<Rightarrow> real) \<Rightarrow> error + gestureData option"
where
  "processFrame svc v now rand =
     (if \<not> initialized svc \<or> \<not> modelLoaded svc
      then Inl (Error ''Gesture recognition not initialized'')
      else if videoWidth v = 0 \<or> videoHeight v = 0 then Inr None
      else
        (let lms = extractHandLandmarks v now;
             g = simulateGestureRecognition lms (rand 0)
         in Inr (Some \<lparr>landmarks = lms, confidence = rand 1 * 0.4 + 0.6, gesture = g\<rparr>)))"

section \<open>GestureQueueManager: the recording session of \<open>VideoInput\<close>\<close>

text \<open>
  The component's state: \<open>messages\<close> is the text of the user messages handed to
  \<open>addMessage\<close>, oldest first.
\<close>

record recorder =
  isRecording :: bool
  currentGesture :: "string option"
  gestureQueue :: "string list"
  messages :: "string list"

definition newRecorder :: recorder where
  "newRecorder =
     \<lparr>isRecording = False, currentGesture = None, gestureQueue = [], messages = []\<rparr>"

text \<open>The updater passed to \<open>setGestureQueue\<close> in the processing loop.\<close>

definition appendIfNew :: "string \<Rightarrow> string list \<Rightarrow> string list" where
  "appendIfNew g prev =
     (if length prev = 0 \<or> prev ! (length prev - 1) \<noteq> g then prev @ [g] else prev)"

text \<open>
  What the loop does with the result of one frame:
  \<open>if (gestureData && gestureData.confidence > 0.7) { ... }\<close>.
\<close>

definition submit :: "gestureData option \<Rightarrow> recorder \<Rightarrow> recorder" where
  "submit gestureData s =
     (case gestureData of
        None \<Rightarrow> s
      | Some d \<Rightarrow>
          if confidence d > 0.7
          then s\<lparr>currentGesture := Some (gesture d),
                 gestureQueue := appendIfNew (gesture d) (gestureQueue s)\<rparr>
          else s)"

definition gestureMap :: "(string \<times> string) list" where
  "gestureMap =
     [(''hello'', ''Hello''), (''thank you'', ''Thank you''), (''please'', ''Please''),
      (''yes'', ''Yes''), (''no'', ''No''), (''help'', ''I need help''), (''good'', ''Good''),
      (''bad'', ''Bad''), (''more'', ''More''), (''stop'', ''Stop'')]"

text \<open>
  \<open>Array.prototype.join\<close> turns every element into a string. For an inherited
  property that is the text of \<open>Object.prototype\<close> itself (\<open>__proto__\<close>) or of a
  built-in function: \<open>constructor\<close> is the function \<open>Object\<close>, every other one a function
  of the property's own name.
\<close>

definition inheritedToString :: "string \<Rightarrow> string" where
  "inheritedToString k =
     (if k = ''__proto__'' then ''[object Object]''
      else if k = ''constructor'' then ''function Object() { [native code] }''
      else ''function '' @ k @ ''() { [native code] }'')"

fun join_sp :: "string list \<Rightarrow> string" where
  "join_sp [] = []"
| "join_sp [x] = x"
| "join_sp (x # y # ys) = x @ '' '' @ join_sp (y # ys)"

text \<open>\<open>gestureMap[gesture] || gesture\<close>: the empty string is the one falsy string.\<close>

definition displayText :: "string \<Rightarrow> string" where
  "displayText g =
     (case getProperty gestureMap g of
        Own t \<Rightarrow> if t = [] then g else t
      | Inherited k \<Rightarrow> inheritedToString k
      | Undefined \<Rightarrow> g)"

definition convertGestureToText :: "string list \<Rightarrow> string" where
  "convertGestureToText gs = join_sp (map displayText gs)"

definition startRecording :: "recorder \<Rightarrow> recorder" where
  "startRecording s = s\<lparr>gestureQueue := [], isRecording := True\<rparr>"

definition stopRecording :: "recorder \<Rightarrow> recorder" where
  "stopRecording s =
     (let s1 = s\<lparr>isRecording := False, currentGesture := None\<rparr>
      in if length (gestureQueue s) > 0
         then s1\<lparr>messages := messages s1 @ [convertGestureToText (gestureQueue s)],
                 gestureQueue := []\<rparr>
         else s1)"

datatype queueOp = Start | Submit "gestureData option" | StopRec

fun apply_op :: "recorder \<Rightarrow> queueOp \<Rightarrow> recorder" where
  "apply_op s Start = startRecording s"
| "apply_op s (Submit d) = submit d s"
| "apply_op s StopRec = stopRecording s"

definition session :: "queueOp list \<Rightarrow> recorder" where
  "session ops = foldl apply_op newRecorder ops"

section \<open>Predicates used in the statements\<close>

definition isRestPose :: "keyframe \<Rightarrow> bool" where
  "isRestPose kf =
     (leftArm kf = Some (arm 0 0 0) \<and> rightArm kf = Some (arm 0 0 0) \<and>
      head kf = Some \<lparr>head_rotation = 0\<rparr> \<and> expression kf = neutral)"

definition hasPose :: "keyframe \<Rightarrow> bool" where
  "hasPose kf = (leftArm kf \<noteq> None \<and> rightArm kf \<noteq> None \<and> head kf \<noteq> None)"

text \<open>
  The numbers of a well-formed animation. A timestamp is a whole number of milliseconds,
  at most \<open>2^51\<close>. A number of a pose is a double and, unless it is 0, between \<open>2^-500\<close>
  and \<open>2^500\<close> in size: far inside the range where \<open>fl\<close> is what double arithmetic does
  to every intermediate result of the interpolation.
\<close>

definition wholeMs :: "real \<Rightarrow> bool" where
  "wholeMs t = (t \<in> \<nat> \<and> t \<le> 2 ^ 51)"

definition poseNumber :: "real \<Rightarrow> bool" where
  "poseNumber v = (fl v = v \<and> (v = 0 \<or> 2 powi (- 500) \<le> \<bar>v\<bar> \<and> \<bar>v\<bar> \<le> 2 powi 500))"

definition armNumbers :: "poseComponent \<Rightarrow> bool" where
  "armNumbers p = (poseNumber (arm_x p) \<and> poseNumber (arm_y p) \<and> poseNumber (arm_rotation p))"

definition keyframeNumbers :: "keyframe \<Rightarrow> bool" where
  "keyframeNumbers k =
     (wholeMs (timestamp k) \<and>
      (case leftArm k of None \<Rightarrow> True | Some p \<Rightarrow> armNumbers p) \<and>
      (case rightArm k of None \<Rightarrow> True | Some p \<Rightarrow> armNumbers p) \<and>
      (case head k of None \<Rightarrow> True | Some h \<Rightarrow> poseNumber (head_rotation h)))"

text \<open>
  A well-formed animation: at least two keyframes, each with its pose and with numbers
  as above, the first at time 0, the timestamps never decreasing.
\<close>

definition wellFormed :: "animation \<Rightarrow> bool" where
  "wellFormed a =
     (2 \<le> length (keyframes a) \<and> timestamp (keyframes a ! 0) = 0 \<and>
      sorted (map timestamp (keyframes a)) \<and> list_all hasPose (keyframes a) \<and>
      list_all keyframeNumbers (keyframes a))"

fun noAdjacentEqual :: "string list \<Rightarrow> bool" where
  "noAdjacentEqual (x # y # ys) = (x \<noteq> y \<and> noAdjacentEqual (y # ys))"
| "noAdjacentEqual ys = True"

text \<open>
  \<open>prev + (next - prev) * 0.5\<close> as double arithmetic computes it: what the interpolation
  gives for one number halfway between two keyframes.
\<close>

definition midValue :: "real \<Rightarrow> real \<Rightarrow> real" where
  "midValue p q = fl (p + fl (fl (q - p) * (1 / 2)))"

definition midArm :: "poseComponent \<Rightarrow> poseComponent \<Rightarrow> poseComponent" where
  "midArm p q =
     \<lparr>arm_x = midValue (arm_x p) (arm_x q), arm_y = midValue (arm_y p) (arm_y q),
      arm_rotation = midValue (arm_rotation p) (arm_rotation q)\<rparr>"

section \<open>Double arithmetic: the exponent and the numbers rounding leaves alone\<close>

lemma expo_ge_bounds: "1 \<le> x \<Longrightarrow> 2 powi (expo_ge x) \<le> x \<and> x < 2 powi (expo_ge x + 1)"
proof (induction x rule: expo_ge.induct)
  case (1 x)
  show ?case
  proof (cases "x < 2")
    case True
    with "1.prems" show ?thesis by (subst (1 2) expo_ge.simps) simp
  next
    case False
    then have "1 \<le> x / 2" by simp
    from "1.IH" [OF False this] have "2 powi (expo_ge (x / 2)) \<le> x / 2" "x / 2 < 2 powi (expo_ge (x / 2) + 1)"
      by simp_all
    then have "2 powi (expo_ge (x / 2) + 1) \<le> x" "x < 2 powi (expo_ge (x / 2) + 1 + 1)"
      by (simp_all add: power_int_add field_simps)
    moreover have "expo_ge x = expo_ge (x / 2) + 1"
      using False by (subst expo_ge.simps) simp
    ultimately show ?thesis by simp
  qed
qed

lemma expo_lt_bounds: "0 < x \<Longrightarrow> x < 2 \<Longrightarrow> 2 powi (expo_lt x) \<le> x \<and> x < 2 powi (expo_lt x + 1)"
proof (induction x rule: expo_lt.induct)
  case (1 x)
  show ?case
  proof (cases "1 \<le> x")
    case True
    with "1.prems" show ?thesis by (subst (1 2) expo_lt.simps) simp
  next
    case False
    with "1.prems" have c: "\<not> (x \<le> 0 \<or> 1 \<le> x)" and "0 < x * 2" "x * 2 < 2" by simp_all
    from "1.IH" [OF c this(2,3)] have "2 powi (expo_lt (x * 2)) \<le> x * 2" "x * 2 < 2 powi (expo_lt (x * 2) + 1)"
      by simp_all
    moreover have "(2::real) powi (expo_lt (x * 2) - 1) = 2 powi (expo_lt (x * 2)) / 2"
      by (simp add: power_int_diff)
    moreover have "(2::real) powi (expo_lt (x * 2) + 1) = 2 powi (expo_lt (x * 2)) * 2"
      by (simp add: power_int_add)
    ultimately have "2 powi (expo_lt (x * 2) - 1) \<le> x" "x < 2 powi (expo_lt (x * 2) - 1 + 1)"
      by simp_all
    moreover have "expo_lt x = expo_lt (x * 2) - 1"
      using c by (subst expo_lt.simps) simp
    ultimately show ?thesis by simp
  qed
qed

lemma expo_bounds: "x \<noteq> 0 \<Longrightarrow> 2 powi (expo x) \<le> \<bar>x\<bar> \<and> \<bar>x\<bar> < 2 powi (expo x + 1)"
  using expo_ge_bounds [of "\<bar>x\<bar>"] expo_lt_bounds [of "\<bar>x\<bar>"]
  by (auto simp add: expo_def)

lemma pow2_less_D: "(2::real) powi a < 2 powi b \<Longrightarrow> a < b"
proof (rule ccontr)
  assume less: "(2::real) powi a < 2 powi b" and "\<not> a < b"
  then have "b \<le> a" by simp
  then have "(2::real) powi b \<le> 2 powi a" by (rule power_int_increasing) simp
  with less show False by simp
qed

lemma expo_unique:
  assumes "2 powi k \<le> \<bar>x\<bar>" "\<bar>x\<bar> < 2 powi (k + 1)"
  shows "expo x = k"
proof -
  have pos: "(0::real) < 2 powi k" by (rule zero_less_power_int) simp
  have "x \<noteq> 0"
  proof
    assume "x = 0"
    then have "2 powi k \<le> (0::real)" using assms(1) by simp
    with pos show False by linarith
  qed
  from expo_bounds [OF this] have b: "2 powi (expo x) \<le> \<bar>x\<bar>" "\<bar>x\<bar> < 2 powi (expo x + 1)"
    by simp_all
  have "(2::real) powi k < 2 powi (expo x + 1)" using assms(1) b(2) by linarith
  then have "k < expo x + 1" by (rule pow2_less_D)
  moreover have "(2::real) powi (expo x) < 2 powi (k + 1)" using assms(2) b(1) by linarith
  then have "expo x < k + 1" by (rule pow2_less_D)
  ultimately show ?thesis by simp
qed

lemma round_even_of_int: "round_even (of_int j) = j"
  by (simp add: round_even_def)

lemma fl_eqI:
  assumes "2 powi k \<le> \<bar>x\<bar>" "\<bar>x\<bar> < 2 powi (k + 1)"
    and "round_even (x / 2 powi (k - 52)) = m"
  shows "fl x = of_int m * 2 powi (k - 52)"
proof -
  have pos: "(0::real) < 2 powi k" by (rule zero_less_power_int) simp
  have "x \<noteq> 0"
  proof
    assume "x = 0"
    then have "2 powi k \<le> (0::real)" using assms(1) by simp
    with pos show False by linarith
  qed
  moreover have "expo x = k" using assms(1,2) by (rule expo_unique)
  ultimately show ?thesis using assms(3) by (simp add: fl_def)
qed

text \<open>Every \<open>m * 2^e\<close> with \<open>|m| < 2^53\<close> is a double: \<open>fl\<close> leaves it as it is.\<close>

lemma fl_grid:
  assumes "\<bar>m\<bar> < 2 ^ 53"
  shows "fl (of_int m * 2 powi e) = of_int m * 2 powi e"
proof (cases "m = 0")
  case True
  then show ?thesis by (simp add: fl_def)
next
  case False
  define x :: real where "x = of_int m * 2 powi e"
  define k where "k = expo x"
  have x0: "x \<noteq> 0" using False by (simp add: x_def)
  from expo_bounds [OF x0] have lo: "2 powi k \<le> \<bar>x\<bar>" by (simp add: k_def)
  have "\<bar>x\<bar> = of_int \<bar>m\<bar> * 2 powi e" by (simp add: x_def abs_mult)
  also have "\<dots> < 2 ^ 53 * 2 powi e"
  proof -
    have "(of_int \<bar>m\<bar> :: real) < of_int (2 ^ 53)" using assms by (simp only: of_int_less_iff)
    moreover have "(0::real) < 2 powi e" by (rule zero_less_power_int) simp
    ultimately show ?thesis by simp
  qed
  also have "\<dots> = 2 powi (53 + e)" by (simp add: power_int_add)
  finally have "(2::real) powi k < 2 powi (53 + e)" using lo by linarith
  then have "k < 53 + e" by (rule pow2_less_D)
  then have c: "0 \<le> e - (k - 52)" by simp
  have "x / 2 powi (k - 52) = of_int m * 2 powi (e - (k - 52))"
    by (simp add: x_def power_int_diff)
  also have "\<dots> = of_int m * 2 ^ nat (e - (k - 52))"
    using c by (simp add: power_int_def)
  also have "\<dots> = of_int (m * 2 ^ nat (e - (k - 52)))" by simp
  finally have "round_even (x / 2 powi (k - 52)) = m * 2 ^ nat (e - (k - 52))"
    by (simp only: round_even_of_int)
  then have "fl x = of_int (m * 2 ^ nat (e - (k - 52))) * 2 powi (k - 52)"
    using x0 by (simp add: fl_def k_def)
  also have "\<dots> = of_int m * (2 powi (e - (k - 52)) * 2 powi (k - 52))"
    using c by (simp add: power_int_def)
  also have "\<dots> = of_int m * 2 powi e"
    by (simp add: power_int_add [symmetric])
  finally show ?thesis by (simp add: x_def)
qed

lemma fl_of_int: "\<bar>n\<bar> < 2 ^ 53 \<Longrightarrow> fl (of_int n) = of_int n"
  using fl_grid [of n 0] by simp

lemma fl_half_int: "\<bar>n\<bar> < 2 ^ 53 \<Longrightarrow> fl (of_int n / 2) = of_int n / 2"
  using fl_grid [of n "-1"] by simp

lemma fl_0: "fl 0 = 0"
  by (simp add: fl_def)

lemma fl_half: "fl (1 / 2) = 1 / 2"
  using fl_half_int [of 1] by simp

text \<open>A double stays a double when it is halved.\<close>

lemma fl_image:
  assumes "x \<noteq> 0"
  shows "\<exists>m. \<bar>m\<bar> \<le> 2 ^ 53 \<and> fl x = of_int m * 2 powi (expo x - 52)"
proof -
  define k where "k = expo x"
  define y where "y = x / 2 powi (k - 52)"
  have p: "(0::real) < 2 powi (k - 52)" by (rule zero_less_power_int) simp
  from expo_bounds [OF assms] have "\<bar>x\<bar> < 2 powi (k + 1)" by (simp add: k_def)
  also have "(2::real) powi (k + 1) = 2 ^ 53 * 2 powi (k - 52)"
  proof -
    have "k + 1 = 53 + (k - 52)" by simp
    then have "(2::real) powi (k + 1) = 2 powi (53 + (k - 52))" by (simp only:)
    also have "\<dots> = 2 powi 53 * 2 powi (k - 52)" by (rule power_int_add) simp
    finally show ?thesis by simp
  qed
  finally have "\<bar>y\<bar> < 2 ^ 53"
    using p by (simp add: y_def abs_divide pos_divide_less_eq)
  then have "- (2 ^ 53) < y" "y < 2 ^ 53" by (simp_all add: abs_less_iff)
  then have f: "- (2 ^ 53) \<le> \<lfloor>y\<rfloor>" "\<lfloor>y\<rfloor> < 2 ^ 53"
    by (simp_all add: le_floor_iff floor_less_iff)
  have "round_even y = \<lfloor>y\<rfloor> \<or> round_even y = \<lfloor>y\<rfloor> + 1"
    by (simp add: round_even_def Let_def)
  moreover from f have "\<bar>\<lfloor>y\<rfloor>\<bar> \<le> 2 ^ 53" "\<bar>\<lfloor>y\<rfloor> + 1\<bar> \<le> 2 ^ 53"
    by linarith+
  ultimately have "\<bar>round_even y\<bar> \<le> 2 ^ 53" by metis
  moreover have "fl x = of_int (round_even y) * 2 powi (expo x - 52)"
    using assms by (simp add: fl_def y_def k_def)
  ultimately show ?thesis by blast
qed

lemma fl_grid_le:
  assumes "\<bar>m\<bar> \<le> 2 ^ 53"
  shows "fl (of_int m * 2 powi e) = of_int m * 2 powi e"
proof (cases "\<bar>m\<bar> < 2 ^ 53")
  case True
  then show ?thesis by (rule fl_grid)
next
  case False
  with assms have "m = 2 ^ 53 \<or> m = - (2 ^ 53)" by auto
  then have "(of_int m :: real) * 2 powi e = of_int (m div 2 ^ 53) * 2 powi (53 + e)"
    by (auto simp add: power_int_add)
  moreover have "\<bar>m div 2 ^ 53\<bar> < 2 ^ 53"
    using \<open>m = 2 ^ 53 \<or> m = - (2 ^ 53)\<close> by auto
  ultimately show ?thesis using fl_grid [of "m div 2 ^ 53" "53 + e"] by simp
qed

lemma fl_halved:
  assumes "fl d = d"
  shows "fl (d * (1 / 2)) = d / 2"
proof (cases "d = 0")
  case True
  then show ?thesis by (simp add: fl_0)
next
  case False
  from fl_image [OF False] assms obtain m where
    m: "\<bar>m\<bar> \<le> 2 ^ 53" and d: "d = of_int m * 2 powi (expo d - 52)"
    by auto
  define h :: real where "h = of_int m * 2 powi (expo d - 52 - 1)"
  have "(2::real) powi (expo d - 52 - 1) = 2 powi (expo d - 52) / 2"
    by (simp add: power_int_diff)
  then have "h = of_int m * 2 powi (expo d - 52) / 2" by (simp add: h_def)
  then have half: "h = d / 2" using d by simp
  have "fl h = h" unfolding h_def using m by (rule fl_grid_le)
  then have "fl (d / 2) = d / 2" by (simp only: half)
  then show ?thesis by simp
qed

lemma midValue_exact:
  assumes "fl (q - p) = q - p" "fl ((p + q) / 2) = (p + q) / 2"
  shows "midValue p q = (p + q) / 2"
proof -
  have "midValue p q = fl (p + fl ((q - p) * (1 / 2)))"
    by (simp only: midValue_def assms(1))
  also have "fl ((q - p) * (1 / 2)) = (q - p) / 2"
    using assms(1) by (rule fl_halved)
  also have "p + (q - p) / 2 = (p + q) / 2" by (simp add: field_simps)
  also have "fl ((p + q) / 2) = (p + q) / 2" by (rule assms(2))
  finally show ?thesis .
qed

lemma poseNumber_0: "poseNumber 0"
  by (simp add: poseNumber_def fl_0)

lemma poseNumber_moderate:
  assumes "fl v = v" "1 \<le> \<bar>v\<bar>" "\<bar>v\<bar> \<le> 2 ^ 53"
  shows "poseNumber v"
proof -
  have "(2::real) powi (- 500) \<le> 2 powi 0" by (rule power_int_increasing) simp_all
  then have "2 powi (- 500) \<le> \<bar>v\<bar>" using assms(2) by simp
  moreover have "(2::real) powi 53 \<le> 2 powi 500" by (rule power_int_increasing) simp_all
  then have "\<bar>v\<bar> \<le> 2 powi 500" using assms(3) by simp
  ultimately show ?thesis using assms(1) by (simp add: poseNumber_def)
qed

lemma poseNumber_of_int: "\<bar>n\<bar> < 2 ^ 53 \<Longrightarrow> poseNumber (of_int n)"
proof (cases "n = 0")
  case True
  then show ?thesis by (simp add: poseNumber_0)
next
  case False
  assume n: "\<bar>n\<bar> < 2 ^ 53"
  have "fl (of_int n) = of_int n" using n by (rule fl_of_int)
  moreover have "1 \<le> \<bar>of_int n :: real\<bar>" using False by (simp flip: of_int_abs)
  moreover have "\<bar>of_int n :: real\<bar> \<le> 2 ^ 53"
  proof -
    have "(of_int \<bar>n\<bar> :: real) \<le> of_int (2 ^ 53)" using n by (simp only: of_int_le_iff)
    then show ?thesis by simp
  qed
  ultimately show ?thesis by (rule poseNumber_moderate)
qed

section \<open>KeyframeSynthesizer: shape of the result\<close>

lemma timestamp_wordKeyframe: "timestamp (wordKeyframe t g e) = t"
  by (simp add: wordKeyframe_def)

lemma forEachWord_shape:
  "forEachWord rand ws (t, n, kfs) = (t', n', kfs') \<Longrightarrow>
     t' = t + 500 * real (length ws) \<and>
     (\<exists>new. kfs' = kfs @ new \<and>
        map timestamp new = map (\<lambda>k. t + 500 * real (Suc k)) [0..<length ws])"
proof (induction ws arbitrary: t n kfs)
  case Nil
  then show ?case by simp
next
  case (Cons w ws)
  obtain g n1 where g: "getGestureForWord rand n w = (g, n1)"
    by (cases "getGestureForWord rand n w")
  define kf where "kf = wordKeyframe (t + 500) g (getExpressionForWord w)"
  from Cons.prems g have run: "forEachWord rand ws (t + 500, n1, kfs @ [kf]) = (t', n', kfs')"
    by (simp add: kf_def Let_def)
  from Cons.IH [OF run] obtain new where
    t': "t' = t + 500 + 500 * real (length ws)" and
    kfs': "kfs' = (kfs @ [kf]) @ new" and
    ts: "map timestamp new = map (\<lambda>k. t + 500 + 500 * real (Suc k)) [0..<length ws]"
    by blast
  have "map timestamp (kf # new) = map (\<lambda>k. t + 500 * real (Suc k)) [0..<length (w # ws)]"
    using ts by (simp add: map_upt_Suc kf_def timestamp_wordKeyframe algebra_simps del: upt_Suc)
  moreover have "kfs' = kfs @ (kf # new)" using kfs' by simp
  moreover have "t' = t + 500 * real (length (w # ws))" using t' by (simp add: algebra_simps)
  ultimately show ?case by blast
qed

lemma textToAnimation_keyframes:
  "\<exists>new. keyframes (textToAnimation rand T) =
            restKeyframe 0 # new @ [restKeyframe (duration (textToAnimation rand T))] \<and>
          length new = length (split_sp (toLowerCase T)) \<and>
          map timestamp new = map (\<lambda>k. 500 * real (Suc k)) [0..<length new] \<and>
          duration (textToAnimation rand T) = 500 * real (length new + 1)"
proof -
  define ws where "ws = split_sp (toLowerCase T)"
  obtain t' n' kfs' where run: "forEachWord rand ws (0, 0, [restKeyframe 0]) = (t', n', kfs')"
    by (cases "forEachWord rand ws (0, 0, [restKeyframe 0])")
  from forEachWord_shape [OF run] obtain new where
    t': "t' = 500 * real (length ws)" and
    kfs': "kfs' = [restKeyframe 0] @ new" and
    ts: "map timestamp new = map (\<lambda>k. 500 * real (Suc k)) [0..<length ws]"
    by auto
  have len: "length new = length ws"
    using arg_cong [OF ts, of length] by simp
  have a: "textToAnimation rand T =
             \<lparr>name = ''text-response'', keyframes = kfs' @ [restKeyframe (t' + 500)],
              duration = t' + 500\<rparr>"
    using run by (simp add: textToAnimation_def ws_def [symmetric] Let_def)
  show ?thesis
    using a kfs' ts len t' by (simp add: ws_def algebra_simps)
qed

lemma textToAnimation_timestamps:
  "map timestamp (keyframes (textToAnimation rand T)) =
     map (\<lambda>k. 500 * real k) [0 ..< length (split_sp (toLowerCase T)) + 2]"
proof -
  obtain new where
    k: "keyframes (textToAnimation rand T) =
          restKeyframe 0 # new @ [restKeyframe (duration (textToAnimation rand T))]" and
    len: "length new = length (split_sp (toLowerCase T))" and
    ts: "map timestamp new = map (\<lambda>k. 500 * real (Suc k)) [0..<length new]" and
    d: "duration (textToAnimation rand T) = 500 * real (length new + 1)"
    using textToAnimation_keyframes [of rand T] by blast
  have "[0..<Suc (length new)] = 0 # map Suc [0..<length new]"
    by (metis upt_conv_Cons map_Suc_upt zero_less_Suc)
  then have "[0 ..< length new + 2] = 0 # map Suc [0..<length new] @ [Suc (length new)]"
    by simp
  then have "map (\<lambda>k. 500 * real k) [0 ..< length new + 2] =
          0 # map (\<lambda>k. 500 * real (Suc k)) [0..<length new] @ [500 * real (length new + 1)]"
    by (simp add: o_def)
  then show ?thesis
    using k len ts d by (simp add: restKeyframe_def)
qed

lemma textToAnimation_duration:
  "duration (textToAnimation rand T) = 500 * real (length (split_sp (toLowerCase T)) + 1)"
  using textToAnimation_keyframes [of rand T] by auto

lemma sorted_half_seconds: "sorted (map (\<lambda>k. 500 * real k) [0..<m])"
  by (simp add: sorted_map sorted_wrt_iff_nth_less)

lemma isRestPose_restKeyframe: "isRestPose (restKeyframe t)"
  by (simp add: isRestPose_def restKeyframe_def)

lemma textToAnimation_hello:
  "textToAnimation rand ''hello'' =
     \<lparr>name = ''text-response'',
      keyframes =
        [restKeyframe 0,
         \<lparr>timestamp = 500, leftArm = Some (arm (-30) (-20) 45),
          rightArm = Some (arm 30 (-20) (-45)), head = Some \<lparr>head_rotation = 0\<rparr>,
          expression = neutral\<rparr>,
         restKeyframe 1000],
      duration = 1000\<rparr>"
  by (simp add: textToAnimation_def toLowerCase_def toLowerChar_def getGestureForWord_def
      getProperty_def gestures_def getExpressionForWord_def wordKeyframe_def mkGesture_def)


text \<open>
  C1. For every input text \<open>T\<close> (and whatever the random source returns), the animation
  \<open>textToAnimation\<close> builds has at least two keyframes, its timestamps never decrease and
  start at 0, and its first and its last keyframe are the neutral rest pose: both arms at
  x = 0, y = 0, rotation 0, head rotation 0, expression neutral. The empty text is one
  such \<open>T\<close>.
\<close>

theorem synthesize_rest_to_rest:
  "2 \<le> length (keyframes (textToAnimation rand T)) \<and>
   sorted (map timestamp (keyframes (textToAnimation rand T))) \<and>
   timestamp (hd (keyframes (textToAnimation rand T))) = 0 \<and>
   isRestPose (hd (keyframes (textToAnimation rand T))) \<and>
   isRestPose (last (keyframes (textToAnimation rand T)))"
proof -
  obtain new where
    k: "keyframes (textToAnimation rand T) =
          restKeyframe 0 # new @ [restKeyframe (duration (textToAnimation rand T))]"
    using textToAnimation_keyframes [of rand T] by blast
  have "sorted (map timestamp (keyframes (textToAnimation rand T)))"
    by (simp only: textToAnimation_timestamps sorted_half_seconds)
  moreover have "2 \<le> length (keyframes (textToAnimation rand T))"
    by (simp add: k)
  moreover have "timestamp (hd (keyframes (textToAnimation rand T))) = 0"
    by (simp add: k restKeyframe_def)
  moreover have "isRestPose (hd (keyframes (textToAnimation rand T)))"
    by (simp add: k isRestPose_restKeyframe)
  moreover have "isRestPose (last (keyframes (textToAnimation rand T)))"
    by (simp add: k isRestPose_restKeyframe)
  ultimately show ?thesis by blast
qed

theorem synthesize_rest_to_rest_witness:
  "2 \<le> length (keyframes (textToAnimation (\<lambda>k. 1 / 2) '''')) \<and>
   sorted (map timestamp (keyframes (textToAnimation (\<lambda>k. 1 / 2) ''''))) \<and>
   timestamp (hd (keyframes (textToAnimation (\<lambda>k. 1 / 2) ''''))) = 0 \<and>
   isRestPose (hd (keyframes (textToAnimation (\<lambda>k. 1 / 2) ''''))) \<and>
   isRestPose (last (keyframes (textToAnimation (\<lambda>k. 1 / 2) '''')))"
  by (rule synthesize_rest_to_rest)

text \<open>
  The words of a text are one more than its spaces, whatever its letters: \<open>split\<close>
  cuts at every space, and lower-casing neither makes nor removes one.
\<close>

lemma split_sp_not_Nil: "split_sp s \<noteq> []"
  by (induction s) (auto split: list.splits)

lemma length_split_sp:
  "length (split_sp s) = Suc (length (filter (\<lambda>c. c = CHR '' '') s))"
proof (induction s)
  case Nil
  then show ?case by simp
next
  case (Cons c cs)
  then show ?case
    using split_sp_not_Nil [of cs] by (cases "split_sp cs") auto
qed

lemma toLowerChar_space: "toLowerChar c = CHR '' '' \<longleftrightarrow> c = CHR '' ''"
  by (auto simp add: toLowerChar_def split: if_splits)

lemma spaces_toLowerCase:
  "filter (\<lambda>c. c = CHR '' '') (toLowerCase s) = filter (\<lambda>c. c = CHR '' '') s"
  by (induction s) (auto simp add: toLowerCase_def toLowerChar_space)

lemma words_of_text:
  "length (split_sp (toLowerCase T)) = length (filter (\<lambda>c. c = CHR '' '') T) + 1"
  by (simp add: length_split_sp spaces_toLowerCase)

lemma textToAnimation_hello_you:
  "textToAnimation rand ''hello you'' =
     \<lparr>name = ''text-response'',
      keyframes =
        [restKeyframe 0,
         \<lparr>timestamp = 500, leftArm = Some (arm (-30) (-20) 45),
          rightArm = Some (arm 30 (-20) (-45)), head = Some \<lparr>head_rotation = 0\<rparr>,
          expression = neutral\<rparr>,
         \<lparr>timestamp = 1000, leftArm = Some (arm 0 0 0),
          rightArm = Some (arm 15 (-15) (-20)), head = Some \<lparr>head_rotation = 0\<rparr>,
          expression = neutral\<rparr>,
         restKeyframe 1500],
      duration = 1500\<rparr>"
  by (simp add: textToAnimation_def toLowerCase_def toLowerChar_def getGestureForWord_def
      getProperty_def gestures_def getExpressionForWord_def wordKeyframe_def mkGesture_def)

text \<open>
  C8. \<open>textToAnimation "hello"\<close> has exactly three keyframes: the neutral rest pose at
  0 ms, at 500 ms the pose the table gives for \<open>hello\<close> (left arm x = -30, y = -20,
  rotation 45; right arm x = 30, y = -20, rotation -45; head rotation 0) with expression
  neutral, and the neutral rest pose at 1000 ms; its duration is 1000 ms. For every text
  \<open>T\<close>, with \<open>s\<close> the number of spaces in \<open>T\<close> and so \<open>s + 1\<close> words: there are \<open>s + 3\<close>
  keyframes, the \<open>k\<close>-th at \<open>500 * k\<close> ms (one step of 500 ms for each word and one more
  before the closing rest keyframe), and the duration is \<open>500 * (s + 2)\<close> ms. So
  \<open>hello you\<close>, two words, has four keyframes: rest at 0, the pose of \<open>hello\<close> at 500,
  the pose of \<open>you\<close> at 1000, rest at 1500, which is its duration.
\<close>

theorem synthesize_hello:
  "textToAnimation rand ''hello'' =
     \<lparr>name = ''text-response'',
      keyframes =
        [\<lparr>timestamp = 0,
          leftArm = Some \<lparr>arm_x = 0, arm_y = 0, arm_rotation = 0\<rparr>,
          rightArm = Some \<lparr>arm_x = 0, arm_y = 0, arm_rotation = 0\<rparr>,
          head = Some \<lparr>head_rotation = 0\<rparr>, expression = neutral\<rparr>,
         \<lparr>timestamp = 500,
          leftArm = Some \<lparr>arm_x = -30, arm_y = -20, arm_rotation = 45\<rparr>,
          rightArm = Some \<lparr>arm_x = 30, arm_y = -20, arm_rotation = -45\<rparr>,
          head = Some \<lparr>head_rotation = 0\<rparr>, expression = neutral\<rparr>,
         \<lparr>timestamp = 1000,
          leftArm = Some \<lparr>arm_x = 0, arm_y = 0, arm_rotation = 0\<rparr>,
          rightArm = Some \<lparr>arm_x = 0, arm_y = 0, arm_rotation = 0\<rparr>,
          head = Some \<lparr>head_rotation = 0\<rparr>, expression = neutral\<rparr>],
      duration = 1000\<rparr> \<and>
   length (keyframes (textToAnimation rand T)) = length (filter (\<lambda>c. c = CHR '' '') T) + 3 \<and>
   map timestamp (keyframes (textToAnimation rand T)) =
     map (\<lambda>k. 500 * real k) [0 ..< length (filter (\<lambda>c. c = CHR '' '') T) + 3] \<and>
   duration (textToAnimation rand T) =
     500 * real (length (filter (\<lambda>c. c = CHR '' '') T) + 2) \<and>
   textToAnimation rand ''hello you'' =
     \<lparr>name = ''text-response'',
      keyframes =
        [\<lparr>timestamp = 0,
          leftArm = Some \<lparr>arm_x = 0, arm_y = 0, arm_rotation = 0\<rparr>,
          rightArm = Some \<lparr>arm_x = 0, arm_y = 0, arm_rotation = 0\<rparr>,
          head = Some \<lparr>head_rotation = 0\<rparr>, expression = neutral\<rparr>,
         \<lparr>timestamp = 500,
          leftArm = Some \<lparr>arm_x = -30, arm_y = -20, arm_rotation = 45\<rparr>,
          rightArm = Some \<lparr>arm_x = 30, arm_y = -20, arm_rotation = -45\<rparr>,
          head = Some \<lparr>head_rotation = 0\<rparr>, expression = neutral\<rparr>,
         \<lparr>timestamp = 1000,
          leftArm = Some \<lparr>arm_x = 0, arm_y = 0, arm_rotation = 0\<rparr>,
          rightArm = Some \<lparr>arm_x = 15, arm_y = -15, arm_rotation = -20\<rparr>,
          head = Some \<lparr>head_rotation = 0\<rparr>, expression = neutral\<rparr>,
         \<lparr>timestamp = 1500,
          leftArm = Some \<lparr>arm_x = 0, arm_y = 0, arm_rotation = 0\<rparr>,
          rightArm = Some \<lparr>arm_x = 0, arm_y = 0, arm_rotation = 0\<rparr>,
          head = Some \<lparr>head_rotation = 0\<rparr>, expression = neutral\<rparr>],
      duration = 1500\<rparr>"
proof -
  have ts: "map timestamp (keyframes (textToAnimation rand T)) =
      map (\<lambda>k. 500 * real k) [0 ..< length (filter (\<lambda>c. c = CHR '' '') T) + 3]"
  proof -
    have "length (split_sp (toLowerCase T)) + 2 = length (filter (\<lambda>c. c = CHR '' '') T) + 3"
      by (simp add: words_of_text)
    then show ?thesis
      using textToAnimation_timestamps [of rand T] by (simp only:)
  qed
  have "length (map timestamp (keyframes (textToAnimation rand T))) =
      length (filter (\<lambda>c. c = CHR '' '') T) + 3"
    by (simp only: ts length_map length_upt diff_zero)
  then have len: "length (keyframes (textToAnimation rand T)) =
      length (filter (\<lambda>c. c = CHR '' '') T) + 3"
    by simp
  have d: "duration (textToAnimation rand T) =
      500 * real (length (filter (\<lambda>c. c = CHR '' '') T) + 2)"
  proof -
    have "length (split_sp (toLowerCase T)) + 1 = length (filter (\<lambda>c. c = CHR '' '') T) + 2"
      by (simp add: words_of_text)
    then show ?thesis
      using textToAnimation_duration [of rand T] by (simp only:)
  qed
  show ?thesis
    by (simp only: textToAnimation_hello textToAnimation_hello_you ts len d)
       (simp add: restKeyframe_def arm_def)
qed



section \<open>GestureQueueManager: admission, deduplication, conversion to text\<close>

lemma appendIfNew_last:
  "appendIfNew g prev = (if prev = [] \<or> last prev \<noteq> g then prev @ [g] else prev)"
  by (cases "prev = []") (simp_all add: appendIfNew_def last_conv_nth)

lemma noAdjacentEqual_snoc:
  "noAdjacentEqual xs \<Longrightarrow> xs = [] \<or> last xs \<noteq> g \<Longrightarrow> noAdjacentEqual (xs @ [g])"
  by (induction xs rule: noAdjacentEqual.induct) simp_all

lemma noAdjacentEqual_appendIfNew:
  "noAdjacentEqual prev \<Longrightarrow> noAdjacentEqual (appendIfNew g prev)"
  by (simp add: appendIfNew_last noAdjacentEqual_snoc)

lemma noAdjacentEqual_apply_op:
  "noAdjacentEqual (gestureQueue s) \<Longrightarrow> noAdjacentEqual (gestureQueue (apply_op s op))"
proof (cases op)
  case Start
  then show ?thesis by (simp add: startRecording_def)
next
  case (Submit d)
  assume "noAdjacentEqual (gestureQueue s)"
  with Submit show ?thesis
    by (simp add: submit_def noAdjacentEqual_appendIfNew split: option.split)
next
  case StopRec
  assume "noAdjacentEqual (gestureQueue s)"
  with StopRec show ?thesis by (simp add: stopRecording_def Let_def)
qed

lemma noAdjacentEqual_foldl:
  "noAdjacentEqual (gestureQueue s) \<Longrightarrow> noAdjacentEqual (gestureQueue (foldl apply_op s ops))"
  by (induction ops arbitrary: s) (simp_all add: noAdjacentEqual_apply_op)

lemma gestureMap_values:
  "map_of gestureMap g = Some t \<Longrightarrow> t \<noteq> []"
proof -
  assume "map_of gestureMap g = Some t"
  then have "(g, t) \<in> set gestureMap" by (rule map_of_SomeD)
  then show ?thesis by (auto simp add: gestureMap_def)
qed

lemma displayText_own: "map_of gestureMap g = Some t \<Longrightarrow> displayText g = t"
  using gestureMap_values [of g t] by (simp add: displayText_def getProperty_def)

lemma displayText_unknown:
  "map_of gestureMap g = None \<Longrightarrow> g \<notin> set objectPrototypeKeys \<Longrightarrow> displayText g = g"
  by (simp add: displayText_def getProperty_def)

text \<open>
  C2, as the code has it. A sample that is none, or whose confidence is not greater
  than 0.7 (the test is \<open>confidence > 0.7\<close>, so 0.7 itself is refused), leaves the queue
  as it is. A sample with confidence greater than 0.7 is appended when the queue is empty
  or its last entry is another label, and leaves the queue as it is when its last entry
  is the same label. Samples \<open>a(0.9), a(0.9), b(0.8), a(0.75), a(0.5)\<close> with \<open>a \<noteq> b\<close>,
  submitted in this order to the empty queue, give the queue \<open>[a, b, a]\<close>.
\<close>

theorem submit_gate_and_dedup:
  "gestureQueue (submit None s) = gestureQueue s \<and>
   (confidence d \<le> 0.7 \<longrightarrow> gestureQueue (submit (Some d) s) = gestureQueue s) \<and>
   (confidence d > 0.7 \<longrightarrow> gestureQueue s = [] \<or> last (gestureQueue s) \<noteq> gesture d \<longrightarrow>
      gestureQueue (submit (Some d) s) = gestureQueue s @ [gesture d]) \<and>
   (confidence d > 0.7 \<longrightarrow> gestureQueue s \<noteq> [] \<longrightarrow> last (gestureQueue s) = gesture d \<longrightarrow>
      gestureQueue (submit (Some d) s) = gestureQueue s) \<and>
   (a \<noteq> b \<longrightarrow>
      gestureQueue (foldl (\<lambda>r x. submit x r) newRecorder
        [Some \<lparr>landmarks = l1, confidence = 0.9, gesture = a\<rparr>,
         Some \<lparr>landmarks = l2, confidence = 0.9, gesture = a\<rparr>,
         Some \<lparr>landmarks = l3, confidence = 0.8, gesture = b\<rparr>,
         Some \<lparr>landmarks = l4, confidence = 0.75, gesture = a\<rparr>,
         Some \<lparr>landmarks = l5, confidence = 0.5, gesture = a\<rparr>]) = [a, b, a])"
proof -
  have "gestureQueue (submit None s) = gestureQueue s"
    by (simp add: submit_def)
  moreover have "confidence d \<le> 0.7 \<longrightarrow> gestureQueue (submit (Some d) s) = gestureQueue s"
    by (simp add: submit_def)
  moreover have "confidence d > 0.7 \<longrightarrow> gestureQueue s = [] \<or> last (gestureQueue s) \<noteq> gesture d \<longrightarrow>
      gestureQueue (submit (Some d) s) = gestureQueue s @ [gesture d]"
    by (simp add: submit_def appendIfNew_last)
  moreover have "confidence d > 0.7 \<longrightarrow> gestureQueue s \<noteq> [] \<longrightarrow> last (gestureQueue s) = gesture d \<longrightarrow>
      gestureQueue (submit (Some d) s) = gestureQueue s"
    by (simp add: submit_def appendIfNew_last)
  moreover have "a \<noteq> b \<longrightarrow>
      gestureQueue (foldl (\<lambda>r x. submit x r) newRecorder
        [Some \<lparr>landmarks = l1, confidence = 0.9, gesture = a\<rparr>,
         Some \<lparr>landmarks = l2, confidence = 0.9, gesture = a\<rparr>,
         Some \<lparr>landmarks = l3, confidence = 0.8, gesture = b\<rparr>,
         Some \<lparr>landmarks = l4, confidence = 0.75, gesture = a\<rparr>,
         Some \<lparr>landmarks = l5, confidence = 0.5, gesture = a\<rparr>]) = [a, b, a]"
    by (simp add: submit_def appendIfNew_last newRecorder_def)
  ultimately show ?thesis by blast
qed

theorem submit_gate_and_dedup_witness:
  "gestureQueue
     (submit (Some \<lparr>landmarks = [], confidence = 0.5, gesture = ''yes''\<rparr>) newRecorder) = [] \<and>
   gestureQueue
     (submit (Some \<lparr>landmarks = [], confidence = 0.9, gesture = ''yes''\<rparr>) newRecorder) =
     [''yes''] \<and>
   gestureQueue
     (submit (Some \<lparr>landmarks = [], confidence = 0.9, gesture = ''yes''\<rparr>)
        (newRecorder\<lparr>gestureQueue := [''no'', ''yes'']\<rparr>)) = [''no'', ''yes''] \<and>
   gestureQueue (foldl (\<lambda>r x. submit x r) newRecorder
        [Some \<lparr>landmarks = [], confidence = 0.9, gesture = ''yes''\<rparr>,
         Some \<lparr>landmarks = [], confidence = 0.9, gesture = ''yes''\<rparr>,
         Some \<lparr>landmarks = [], confidence = 0.8, gesture = ''no''\<rparr>,
         Some \<lparr>landmarks = [], confidence = 0.75, gesture = ''yes''\<rparr>,
         Some \<lparr>landmarks = [], confidence = 0.5, gesture = ''yes''\<rparr>]) =
     [''yes'', ''no'', ''yes'']"
  using
    submit_gate_and_dedup [of newRecorder
      "\<lparr>landmarks = [], confidence = 0.5, gesture = ''yes''\<rparr>" "''yes''" "''no''" "[]" "[]" "[]" "[]" "[]"]
    submit_gate_and_dedup [of newRecorder
      "\<lparr>landmarks = [], confidence = 0.9, gesture = ''yes''\<rparr>" "''yes''" "''no''" "[]" "[]" "[]" "[]" "[]"]
    submit_gate_and_dedup [of "newRecorder\<lparr>gestureQueue := [''no'', ''yes'']\<rparr>"
      "\<lparr>landmarks = [], confidence = 0.9, gesture = ''yes''\<rparr>" "''yes''" "''no''" "[]" "[]" "[]" "[]" "[]"]
  by (simp add: newRecorder_def)

text \<open>
  C2 as stated fails at the threshold itself: a sample with confidence 0.7 is not below
  the threshold, the queue is empty, and still the label is not appended.
\<close>

theorem submit_at_threshold_refused:
  "\<not> confidence \<lparr>landmarks = [], confidence = 0.7, gesture = ''yes''\<rparr> < 0.7 \<and>
   gestureQueue newRecorder = [] \<and>
   gestureQueue
     (submit (Some \<lparr>landmarks = [], confidence = 0.7, gesture = ''yes''\<rparr>) newRecorder) = [] \<and>
   gestureQueue
     (submit (Some \<lparr>landmarks = [], confidence = 0.7, gesture = ''yes''\<rparr>) newRecorder) \<noteq>
     gestureQueue newRecorder @ [''yes'']"
  by (simp add: submit_def newRecorder_def)

text \<open>
  C9. Whatever sequence of start, submit and stop operations a recording component has
  gone through since it was created, no two neighbours in its gesture queue are equal.
\<close>

theorem queue_never_repeats_neighbour:
  "noAdjacentEqual (gestureQueue (session ops))"
  unfolding session_def
  by (rule noAdjacentEqual_foldl) (simp add: newRecorder_def)

theorem queue_never_repeats_neighbour_witness:
  "noAdjacentEqual (gestureQueue (session
     [Start,
      Submit (Some \<lparr>landmarks = [], confidence = 0.9, gesture = ''yes''\<rparr>),
      Submit (Some \<lparr>landmarks = [], confidence = 0.9, gesture = ''yes''\<rparr>),
      Submit (Some \<lparr>landmarks = [], confidence = 0.8, gesture = ''no''\<rparr>),
      StopRec,
      Submit (Some \<lparr>landmarks = [], confidence = 0.8, gesture = ''no''\<rparr>)]))"
  by (rule queue_never_repeats_neighbour)

text \<open>
  C6, as the code has it. Stopping with a queue that is not empty adds one message, the
  text of the queue, and empties the queue in the same step. The text is the phrases of
  the tokens joined by single spaces: a token of the table gives its phrase (\<open>hello\<close>
  gives \<open>Hello\<close>, \<open>help\<close> gives \<open>I need help\<close>); a token that is neither in the table nor
  the name of a property inherited from \<open>Object.prototype\<close> passes through unchanged.
  Stopping with an empty queue adds no message, so no text at all is produced, and leaves
  the queue empty; a second stop right after a stop changes nothing.
\<close>

theorem stop_converts_and_clears:
  "(gestureQueue s \<noteq> [] \<longrightarrow>
      stopRecording s =
        s\<lparr>isRecording := False, currentGesture := None,
          messages := messages s @ [convertGestureToText (gestureQueue s)],
          gestureQueue := []\<rparr>) \<and>
   convertGestureToText [] = [] \<and>
   convertGestureToText [g] = displayText g \<and>
   convertGestureToText (g # h # gs) = displayText g @ '' '' @ convertGestureToText (h # gs) \<and>
   (map_of gestureMap g = Some t \<longrightarrow> displayText g = t) \<and>
   displayText ''hello'' = ''Hello'' \<and> displayText ''help'' = ''I need help'' \<and>
   (map_of gestureMap g = None \<longrightarrow> g \<notin> set objectPrototypeKeys \<longrightarrow> displayText g = g) \<and>
   (gestureQueue s = [] \<longrightarrow>
      messages (stopRecording s) = messages s \<and> gestureQueue (stopRecording s) = []) \<and>
   stopRecording (stopRecording s) = stopRecording s"
proof -
  have "gestureQueue s \<noteq> [] \<longrightarrow>
      stopRecording s =
        s\<lparr>isRecording := False, currentGesture := None,
          messages := messages s @ [convertGestureToText (gestureQueue s)],
          gestureQueue := []\<rparr>"
    by (simp add: stopRecording_def Let_def)
  moreover have "convertGestureToText [] = [] \<and> convertGestureToText [g] = displayText g \<and>
      convertGestureToText (g # h # gs) = displayText g @ '' '' @ convertGestureToText (h # gs)"
    by (simp add: convertGestureToText_def)
  moreover have "map_of gestureMap g = Some t \<longrightarrow> displayText g = t"
    by (simp add: displayText_own)
  moreover have "displayText ''hello'' = ''Hello'' \<and> displayText ''help'' = ''I need help''"
    by (simp add: displayText_def getProperty_def gestureMap_def)
  moreover have "map_of gestureMap g = None \<longrightarrow> g \<notin> set objectPrototypeKeys \<longrightarrow> displayText g = g"
    by (simp add: displayText_unknown)
  moreover have "gestureQueue s = [] \<longrightarrow>
      messages (stopRecording s) = messages s \<and> gestureQueue (stopRecording s) = []"
    by (simp add: stopRecording_def Let_def)
  moreover have "stopRecording (stopRecording s) = stopRecording s"
    by (simp add: stopRecording_def Let_def)
  ultimately show ?thesis by blast
qed

theorem stop_converts_and_clears_witness:
  "stopRecording (newRecorder\<lparr>isRecording := True, gestureQueue := [''hello'', ''wave'', ''help'']\<rparr>) =
     newRecorder\<lparr>messages := [''Hello wave I need help'']\<rparr> \<and>
   messages (stopRecording newRecorder) = [] \<and>
   gestureQueue (stopRecording newRecorder) = [] \<and>
   displayText ''wave'' = ''wave''"
  using
    stop_converts_and_clears [of
      "newRecorder\<lparr>isRecording := True, gestureQueue := [''hello'', ''wave'', ''help'']\<rparr>"
      "''wave''" "''help''" "[]" "''Hello''"]
    stop_converts_and_clears [of newRecorder "''hello''" "''wave''" "[''help'']" "''Hello''"]
    stop_converts_and_clears [of newRecorder "''help''" "''wave''" "[]" "''I need help''"]
  by (simp add: newRecorder_def gestureMap_def objectPrototypeKeys_def)

text \<open>
  C6 as stated fails twice. The token \<open>__proto__\<close> is not in the table and does not pass
  through unchanged: the lookup finds the property every object inherits, and the text
  is \<open>[object Object]\<close>. And stopping with an empty queue yields no string, not the empty
  string: no message is added.
\<close>

theorem stop_counterexample:
  "map_of gestureMap ''__proto__'' = None \<and>
   convertGestureToText [''__proto__''] = ''[object Object]'' \<and>
   convertGestureToText [''__proto__''] \<noteq> ''__proto__'' \<and>
   gestureQueue newRecorder = [] \<and>
   messages (stopRecording newRecorder) = messages newRecorder"
  by (simp add: convertGestureToText_def displayText_def getProperty_def gestureMap_def
      objectPrototypeKeys_def inheritedToString_def stopRecording_def newRecorder_def)

section \<open>GestureClassifier: the two early exits of \<open>processFrame\<close>\<close>

text \<open>
  C7. \<open>processFrame\<close> of a service that is not initialized (as it is created, or after
  an initialization that failed) throws the error \<open>Gesture recognition not initialized\<close>.
  Once initialization has succeeded, \<open>processFrame\<close> on a frame whose width or height is
  zero returns \<open>null\<close>, no sample, and throws nothing.
\<close>

theorem classify_early_exits:
  "(\<not> initialized svc \<or> \<not> modelLoaded svc \<longrightarrow>
      processFrame svc v now rand = Inl (Error ''Gesture recognition not initialized'')) \<and>
   processFrame newService v now rand = Inl (Error ''Gesture recognition not initialized'') \<and>
   initialize (Some e) newService = Inl e \<and>
   (initialize None newService = Inr svc' \<longrightarrow> videoWidth v = 0 \<or> videoHeight v = 0 \<longrightarrow>
      processFrame svc' v now rand = Inr None) \<and>
   (initialized svc \<longrightarrow> modelLoaded svc \<longrightarrow> videoWidth v = 0 \<or> videoHeight v = 0 \<longrightarrow>
      processFrame svc v now rand = Inr None)"
  by (auto simp add: processFrame_def initialize_def newService_def)

theorem classify_early_exits_witness:
  "processFrame \<lparr>initialized = False, modelLoaded = False\<rparr>
     \<lparr>videoWidth = 640, videoHeight = 480, width = 640, height = 480\<rparr> 0 (\<lambda>k. 1 / 2) =
     Inl (Error ''Gesture recognition not initialized'') \<and>
   initialize None newService = Inr \<lparr>initialized = True, modelLoaded = True\<rparr> \<and>
   processFrame \<lparr>initialized = True, modelLoaded = True\<rparr>
     \<lparr>videoWidth = 0, videoHeight = 480, width = 640, height = 480\<rparr> 0 (\<lambda>k. 1 / 2) =
     Inr None \<and>
   processFrame \<lparr>initialized = True, modelLoaded = True\<rparr>
     \<lparr>videoWidth = 640, videoHeight = 0, width = 640, height = 480\<rparr> 0 (\<lambda>k. 1 / 2) =
     Inr None"
  using
    classify_early_exits [of "\<lparr>initialized = False, modelLoaded = False\<rparr>"
      "\<lparr>videoWidth = 640, videoHeight = 480, width = 640, height = 480\<rparr>" 0 "\<lambda>k. 1 / 2"
      "Error []" "\<lparr>initialized = True, modelLoaded = True\<rparr>"]
    classify_early_exits [of "\<lparr>initialized = True, modelLoaded = True\<rparr>"
      "\<lparr>videoWidth = 0, videoHeight = 480, width = 640, height = 480\<rparr>" 0 "\<lambda>k. 1 / 2"
      "Error []" "\<lparr>initialized = True, modelLoaded = True\<rparr>"]
    classify_early_exits [of "\<lparr>initialized = True, modelLoaded = True\<rparr>"
      "\<lparr>videoWidth = 640, videoHeight = 0, width = 640, height = 480\<rparr>" 0 "\<lambda>k. 1 / 2"
      "Error []" "\<lparr>initialized = True, modelLoaded = True\<rparr>"]
  by (simp add: initialize_def newService_def)

section \<open>AnimationPlayer: what \<open>interpolatePose\<close> returns\<close>

lemma findBracket_here:
  "i + 1 < length kfs \<Longrightarrow> timestamp (kfs ! i) \<le> e \<Longrightarrow> e \<le> timestamp (kfs ! (i + 1)) \<Longrightarrow>
     findBracket e kfs i = Some (kfs ! i, kfs ! (i + 1))"
  by (subst findBracket.simps) simp

lemma findBracket_next:
  "i + 1 < length kfs \<Longrightarrow> \<not> (timestamp (kfs ! i) \<le> e \<and> e \<le> timestamp (kfs ! (i + 1))) \<Longrightarrow>
     findBracket e kfs i = findBracket e kfs (i + 1)"
  by (subst findBracket.simps) auto

lemma findBracket_first_match:
  assumes "i + 1 < length kfs"
    and "timestamp (kfs ! i) \<le> e" "e \<le> timestamp (kfs ! (i + 1))"
    and "\<forall>j. k \<le> j \<and> j < i \<longrightarrow> \<not> (timestamp (kfs ! j) \<le> e \<and> e \<le> timestamp (kfs ! (j + 1)))"
    and "k \<le> i"
  shows "findBracket e kfs k = Some (kfs ! i, kfs ! (i + 1))"
  using assms(4,5)
proof (induction "i - k" arbitrary: k)
  case 0
  then have "k = i" by simp
  then show ?case using assms(1-3) by (simp only: findBracket_here)
next
  case (Suc d)
  then have lt: "k < i" by simp
  then have "k + 1 < length kfs" using assms(1) by simp
  moreover have "\<not> (timestamp (kfs ! k) \<le> e \<and> e \<le> timestamp (kfs ! (k + 1)))"
    using Suc.prems(1) lt by blast
  ultimately have "findBracket e kfs k = findBracket e kfs (k + 1)"
    by (rule findBracket_next)
  moreover have "findBracket e kfs (k + 1) = Some (kfs ! i, kfs ! (i + 1))"
  proof (rule Suc.hyps(1))
    show "d = i - (k + 1)" using Suc.hyps(2) by simp
    show "\<forall>j. k + 1 \<le> j \<and> j < i \<longrightarrow> \<not> (timestamp (kfs ! j) \<le> e \<and> e \<le> timestamp (kfs ! (j + 1)))"
      using Suc.prems(1) by simp
    show "k + 1 \<le> i" using lt by simp
  qed
  ultimately show ?case by simp
qed

lemma findBracket_members:
  "findBracket e kfs k = Some (p, n) \<Longrightarrow> p \<in> set kfs \<and> n \<in> set kfs"
proof (induction e kfs k rule: findBracket.induct)
  case (1 elapsed kfs i)
  show ?case
  proof (cases "i + 1 < length kfs")
    case False
    with "1.prems" show ?thesis by (subst (asm) findBracket.simps) simp
  next
    case inside: True
    show ?thesis
    proof (cases "timestamp (kfs ! i) \<le> elapsed \<and> elapsed \<le> timestamp (kfs ! (i + 1))")
      case True
      with inside have "findBracket elapsed kfs i = Some (kfs ! i, kfs ! (i + 1))"
        by (simp only: findBracket_here)
      with "1.prems" inside show ?thesis by auto
    next
      case False
      with inside have "findBracket elapsed kfs i = findBracket elapsed kfs (i + 1)"
        by (rule findBracket_next)
      with "1.prems" "1.IH" inside False show ?thesis by auto
    qed
  qed
qed

lemma surroundingKeyframes_members:
  "kfs \<noteq> [] \<Longrightarrow> surroundingKeyframes e kfs = (p, n) \<Longrightarrow> p \<in> set kfs \<and> n \<in> set kfs"
  by (auto simp add: surroundingKeyframes_def split: option.splits dest: findBracket_members)

lemma sorted_timestamps_nth:
  "sorted (map timestamp kfs) \<Longrightarrow> i \<le> j \<Longrightarrow> j < length kfs \<Longrightarrow>
     timestamp (kfs ! i) \<le> timestamp (kfs ! j)"
  using sorted_nth_mono [of "map timestamp kfs" i j] by simp

lemma findBracket_None:
  "\<forall>j. k \<le> j \<and> j + 1 < length kfs \<longrightarrow>
        \<not> (timestamp (kfs ! j) \<le> e \<and> e \<le> timestamp (kfs ! (j + 1))) \<Longrightarrow>
     findBracket e kfs k = None"
proof (induction e kfs k rule: findBracket.induct)
  case (1 elapsed kfs i)
  show ?case
  proof (cases "i + 1 < length kfs")
    case False
    then show ?thesis by (subst findBracket.simps) simp
  next
    case True
    with "1.prems" have no: "\<not> (timestamp (kfs ! i) \<le> elapsed \<and> elapsed \<le> timestamp (kfs ! (i + 1)))"
      by simp
    with True have "findBracket elapsed kfs i = findBracket elapsed kfs (i + 1)"
      by (rule findBracket_next)
    moreover have "findBracket elapsed kfs (i + 1) = None"
      using True no "1.prems" by (intro "1.IH") auto
    ultimately show ?thesis by simp
  qed
qed

subsection \<open>Rounding on whole milliseconds and on the numbers of a pose\<close>

lemma wholeMs_int: "wholeMs t \<Longrightarrow> \<exists>n::int. t = of_int n \<and> 0 \<le> n \<and> n \<le> 2 ^ 51"
proof -
  assume w: "wholeMs t"
  then have "t \<in> \<nat>" by (simp add: wholeMs_def)
  then obtain k :: nat where k: "t = of_nat k" by (auto elim: Nats_cases)
  then have t: "t = of_int (int k)" by simp
  moreover have "(of_int (int k) :: real) \<le> of_int (2 ^ 51)"
    using w t by (simp add: wholeMs_def)
  then have "int k \<le> 2 ^ 51" by (simp only: of_int_le_iff)
  ultimately show ?thesis by (intro exI [of _ "int k"]) simp
qed

lemma fl_whole_diff:
  assumes "0 \<le> a" "a \<le> 2 ^ 51" "0 \<le> b" "b \<le> 2 ^ 51"
  shows "fl (of_int b - of_int a) = of_int b - of_int a"
proof -
  have "\<bar>b - a\<bar> < 2 ^ 53" using assms by simp
  then have "fl (of_int (b - a)) = of_int (b - a)" by (rule fl_of_int)
  then show ?thesis by simp
qed

lemma fl_half_diff:
  assumes "0 \<le> a" "a \<le> 2 ^ 51" "0 \<le> b" "b \<le> 2 ^ 51"
  shows "fl ((of_int a + of_int b) / 2 - of_int a) = (of_int b - of_int a) / 2"
proof -
  have "\<bar>b - a\<bar> < 2 ^ 53" using assms by simp
  then have "fl (of_int (b - a) / 2) = of_int (b - a) / 2" by (rule fl_half_int)
  moreover have "((of_int a :: real) + of_int b) / 2 - of_int a = of_int (b - a) / 2"
    by (simp add: field_simps)
  ultimately show ?thesis by simp
qed

lemma progressAt_equal: "timestamp p = timestamp n \<Longrightarrow> progressAt e p n = 0"
  by (simp add: progressAt_def fsub_def fl_0)

lemma progressAt_start:
  assumes "timestamp p = 0" "wholeMs (timestamp n)"
  shows "progressAt 0 p n = 0"
proof -
  from wholeMs_int [OF assms(2)] obtain b :: int where
    b: "timestamp n = of_int b" "0 \<le> b" "b \<le> 2 ^ 51" by blast
  have "fl (of_int b - of_int 0) = of_int b - of_int 0"
    using b(2,3) by (intro fl_whole_diff) simp_all
  then have d: "fsub (timestamp n) (timestamp p) = timestamp n"
    by (simp add: fsub_def assms(1) b(1))
  have "fdiv (fsub 0 (timestamp p)) (timestamp n) = 0"
    by (simp add: assms(1) fsub_def fdiv_def fl_0)
  then show ?thesis
    unfolding progressAt_def Let_def d by simp
qed

lemma progressAt_whole:
  assumes "wholeMs (timestamp p)" "wholeMs (timestamp n)"
    and "timestamp p < of_int c" "of_int c \<le> timestamp n"
  shows "progressAt (of_int c) p n =
           fl ((of_int c - timestamp p) / (timestamp n - timestamp p))"
proof -
  from wholeMs_int [OF assms(1)] obtain a :: int where
    a: "timestamp p = of_int a" "0 \<le> a" "a \<le> 2 ^ 51" by blast
  from wholeMs_int [OF assms(2)] obtain b :: int where
    b: "timestamp n = of_int b" "0 \<le> b" "b \<le> 2 ^ 51" by blast
  have ac: "a < c" and cb: "c \<le> b"
    using assms(3,4) by (simp_all add: a(1) b(1))
  have "fl (of_int b - of_int a) = of_int b - of_int a"
    using a(2,3) b(2,3) by (rule fl_whole_diff)
  then have dur: "fsub (timestamp n) (timestamp p) = timestamp n - timestamp p"
    by (simp add: fsub_def a(1) b(1))
  have "fl (of_int c - of_int a) = of_int c - of_int a"
    using a(2,3) ac cb b(3) by (intro fl_whole_diff) simp_all
  then have num: "fsub (of_int c) (timestamp p) = of_int c - timestamp p"
    by (simp add: fsub_def a(1))
  have pos: "timestamp n - timestamp p > 0"
    using assms(3,4) by simp
  show ?thesis
    unfolding progressAt_def Let_def dur num fdiv_def using pos by simp
qed

lemma progressAt_midpoint:
  assumes "wholeMs (timestamp p)" "wholeMs (timestamp n)" "timestamp p < timestamp n"
  shows "progressAt ((timestamp p + timestamp n) / 2) p n = 1 / 2"
proof -
  from wholeMs_int [OF assms(1)] obtain a :: int where
    a: "timestamp p = of_int a" "0 \<le> a" "a \<le> 2 ^ 51" by blast
  from wholeMs_int [OF assms(2)] obtain b :: int where
    b: "timestamp n = of_int b" "0 \<le> b" "b \<le> 2 ^ 51" by blast
  have "fl (of_int b - of_int a) = of_int b - of_int a"
    using a(2,3) b(2,3) by (rule fl_whole_diff)
  then have dur: "fsub (timestamp n) (timestamp p) = timestamp n - timestamp p"
    by (simp add: fsub_def a(1) b(1))
  have "fl ((of_int a + of_int b) / 2 - of_int a) = (of_int b - of_int a) / 2"
    using a(2,3) b(2,3) by (rule fl_half_diff)
  then have num: "fsub ((timestamp p + timestamp n) / 2) (timestamp p) =
      (timestamp n - timestamp p) / 2"
    by (simp add: fsub_def a(1) b(1))
  have pos: "timestamp n - timestamp p > 0"
    using assms(3) by simp
  then have q: "(timestamp n - timestamp p) / 2 / (timestamp n - timestamp p) = 1 / 2"
    by simp
  show ?thesis
    unfolding progressAt_def Let_def dur num fdiv_def q fl_half using pos by simp
qed

lemma lerp_0: "fl p = p \<Longrightarrow> fadd p (fmul d 0) = p"
  by (simp add: fadd_def fmul_def fl_0)

lemma lerpArm_0: "armNumbers p \<Longrightarrow> lerpArm p q 0 = p"
  by (simp add: lerpArm_def armNumbers_def poseNumber_def lerp_0)

lemma lerpHead_0: "poseNumber (head_rotation p) \<Longrightarrow> lerpHead p q 0 = p"
  by (simp add: lerpHead_def poseNumber_def lerp_0)

lemma lerp_half: "fadd p (fmul (fsub q p) (1 / 2)) = midValue p q"
  by (simp only: fadd_def fmul_def fsub_def midValue_def)

lemma lerpArm_half: "lerpArm p q (1 / 2) = midArm p q"
  by (simp only: lerpArm_def midArm_def lerp_half)

lemma lerpHead_half:
  "lerpHead p q (1 / 2) = \<lparr>head_rotation = midValue (head_rotation p) (head_rotation q)\<rparr>"
  by (simp only: lerpHead_def lerp_half)

lemma interpolatePose_between:
  assumes "kfs = keyframes a" "kfs \<noteq> []"
    and "surroundingKeyframes e kfs = (p, n)"
    and "leftArm p = Some pl" "leftArm n = Some nl" "rightArm p = Some pr"
      "rightArm n = Some nr" "head p = Some ph" "head n = Some nh"
  shows "interpolatePose (Some a) e =
     Inr \<lparr>timestamp = e,
          leftArm = Some (lerpArm pl nl (progressAt e p n)),
          rightArm = Some (lerpArm pr nr (progressAt e p n)),
          head = Some (lerpHead ph nh (progressAt e p n)),
          expression = (if progressAt e p n < 1 / 2 then expression p else expression n)\<rparr>"
  using assms by (simp add: interpolatePose_def Let_def)

lemma hasPose_fields:
  "hasPose k \<Longrightarrow> \<exists>l r h. leftArm k = Some l \<and> rightArm k = Some r \<and> head k = Some h"
  by (auto simp add: hasPose_def)

subsection \<open>The four properties\<close>

lemma wellFormed_nth:
  assumes "wellFormed a" "j < length (keyframes a)"
  shows "hasPose (keyframes a ! j)" "keyframeNumbers (keyframes a ! j)"
    "wholeMs (timestamp (keyframes a ! j))"
  using assms by (simp_all add: wellFormed_def list_all_length keyframeNumbers_def)

lemma wellFormed_member:
  assumes "wellFormed a" "k \<in> set (keyframes a)"
  shows "\<exists>l r h. leftArm k = Some l \<and> rightArm k = Some r \<and> head k = Some h \<and>
           armNumbers l \<and> armNumbers r \<and> poseNumber (head_rotation h)"
proof -
  from assms have "hasPose k" "keyframeNumbers k"
    by (simp_all add: wellFormed_def list_all_iff)
  then show ?thesis
    by (auto simp add: hasPose_def keyframeNumbers_def)
qed

lemma interpolatePose_defined:
  assumes "wellFormed a"
  shows "\<exists>r. interpolatePose (Some a) e = Inr r"
proof -
  define kfs where "kfs = keyframes a"
  have "2 \<le> length kfs" using assms by (simp add: wellFormed_def kfs_def)
  then have ne: "kfs \<noteq> []" by auto
  obtain p n where sur: "surroundingKeyframes e kfs = (p, n)"
    by (cases "surroundingKeyframes e kfs")
  from surroundingKeyframes_members [OF ne sur]
  have "p \<in> set (keyframes a)" "n \<in> set (keyframes a)" by (simp_all add: kfs_def)
  from wellFormed_member [OF assms this(1)] wellFormed_member [OF assms this(2)]
  obtain pl pr ph nl nr nh where
    "leftArm p = Some pl" "leftArm n = Some nl" "rightArm p = Some pr"
    "rightArm n = Some nr" "head p = Some ph" "head n = Some nh"
    by blast
  from interpolatePose_between [OF kfs_def ne sur this] show ?thesis by blast
qed

lemma interpolatePose_rest:
  assumes wf: "wellFormed a" and sur: "surroundingKeyframes e (keyframes a) = (p, n)"
    and zero: "progressAt e p n = 0"
  shows "interpolatePose (Some a) e = Inr (p\<lparr>timestamp := e\<rparr>)"
proof -
  define kfs where "kfs = keyframes a"
  have "2 \<le> length kfs" using wf by (simp add: wellFormed_def kfs_def)
  then have ne: "kfs \<noteq> []" by auto
  have sur': "surroundingKeyframes e kfs = (p, n)" using sur by (simp add: kfs_def)
  from surroundingKeyframes_members [OF ne sur']
  have "p \<in> set (keyframes a)" "n \<in> set (keyframes a)" by (simp_all add: kfs_def)
  from wellFormed_member [OF wf this(1)] wellFormed_member [OF wf this(2)]
  obtain pl pr ph nl nr nh where
    f: "leftArm p = Some pl" "leftArm n = Some nl" "rightArm p = Some pr"
       "rightArm n = Some nr" "head p = Some ph" "head n = Some nh" and
    num: "armNumbers pl" "armNumbers pr" "poseNumber (head_rotation ph)"
    by blast
  have "interpolatePose (Some a) e =
     Inr \<lparr>timestamp = e, leftArm = Some pl, rightArm = Some pr, head = Some ph,
          expression = expression p\<rparr>"
    unfolding interpolatePose_between [OF kfs_def ne sur' f] zero
      lerpArm_0 [OF num(1)] lerpArm_0 [OF num(2)] lerpHead_0 [OF num(3)]
    by simp
  also have "\<lparr>timestamp = e, leftArm = Some pl, rightArm = Some pr, head = Some ph,
          expression = expression p\<rparr> = p\<lparr>timestamp := e\<rparr>"
    using f by (cases p) simp
  finally show ?thesis .
qed

lemma surrounding_first_pair:
  assumes "wellFormed a"
  shows "surroundingKeyframes 0 (keyframes a) = (keyframes a ! 0, keyframes a ! 1)"
proof -
  define kfs where "kfs = keyframes a"
  from assms have len: "2 \<le> length kfs" and t0: "timestamp (kfs ! 0) = 0"
    and srt: "sorted (map timestamp kfs)"
    by (simp_all add: wellFormed_def kfs_def)
  have "timestamp (kfs ! 0) \<le> timestamp (kfs ! 1)"
    using srt len by (intro sorted_timestamps_nth) simp_all
  then have "findBracket 0 kfs 0 = Some (kfs ! 0, kfs ! (0 + 1))"
    using len t0 by (intro findBracket_here) simp_all
  then show ?thesis by (simp add: surroundingKeyframes_def kfs_def)
qed

lemma interpolatePose_start:
  assumes "wellFormed a"
  shows "interpolatePose (Some a) 0 = Inr (keyframes a ! 0)"
proof -
  have "2 \<le> length (keyframes a)" using assms by (simp add: wellFormed_def)
  then have len: "0 < length (keyframes a)" "1 < length (keyframes a)"
    by linarith+
  have t0: "timestamp (keyframes a ! 0) = 0" using assms by (simp add: wellFormed_def)
  have "progressAt 0 (keyframes a ! 0) (keyframes a ! 1) = 0"
    using t0 wellFormed_nth(3) [OF assms len(2)] by (rule progressAt_start)
  from interpolatePose_rest [OF assms surrounding_first_pair [OF assms] this]
  have "interpolatePose (Some a) 0 = Inr ((keyframes a ! 0)\<lparr>timestamp := 0\<rparr>)" .
  moreover have "(keyframes a ! 0)\<lparr>timestamp := 0\<rparr> = keyframes a ! 0"
    using t0 by (cases "keyframes a ! 0") simp
  ultimately show ?thesis by simp
qed

lemma surrounding_inside:
  assumes "wellFormed a" and i: "i + 1 < length (keyframes a)"
    and "timestamp (keyframes a ! i) < e" "e \<le> timestamp (keyframes a ! (i + 1))"
  shows "surroundingKeyframes e (keyframes a) = (keyframes a ! i, keyframes a ! (i + 1))"
proof -
  define kfs where "kfs = keyframes a"
  from assms(1) have srt: "sorted (map timestamp kfs)"
    by (simp add: wellFormed_def kfs_def)
  have i': "i + 1 < length kfs" and lo: "timestamp (kfs ! i) < e"
    and hi: "e \<le> timestamp (kfs ! (i + 1))"
    using assms(2-4) by (simp_all add: kfs_def)
  have earlier: "\<forall>j. 0 \<le> j \<and> j < i \<longrightarrow> \<not> (timestamp (kfs ! j) \<le> e \<and> e \<le> timestamp (kfs ! (j + 1)))"
  proof (intro allI impI)
    fix j assume "0 \<le> j \<and> j < i"
    then have "timestamp (kfs ! (j + 1)) \<le> timestamp (kfs ! i)"
      using srt i' by (intro sorted_timestamps_nth) simp_all
    then show "\<not> (timestamp (kfs ! j) \<le> e \<and> e \<le> timestamp (kfs ! (j + 1)))"
      using lo by simp
  qed
  have "findBracket e kfs 0 = Some (kfs ! i, kfs ! (i + 1))"
    using i' lo hi earlier by (intro findBracket_first_match) simp_all
  then show ?thesis by (simp add: surroundingKeyframes_def kfs_def)
qed

lemma interpolatePose_inside:
  assumes wf: "wellFormed a" and i: "i + 1 < length (keyframes a)"
    and lo: "timestamp (keyframes a ! i) < e" and hi: "e \<le> timestamp (keyframes a ! (i + 1))"
  shows "\<exists>pl nl pr nr ph nh.
      leftArm (keyframes a ! i) = Some pl \<and> leftArm (keyframes a ! (i + 1)) = Some nl \<and>
      rightArm (keyframes a ! i) = Some pr \<and> rightArm (keyframes a ! (i + 1)) = Some nr \<and>
      head (keyframes a ! i) = Some ph \<and> head (keyframes a ! (i + 1)) = Some nh \<and>
      interpolatePose (Some a) e =
        Inr \<lparr>timestamp = e,
             leftArm = Some (lerpArm pl nl
               (progressAt e (keyframes a ! i) (keyframes a ! (i + 1)))),
             rightArm = Some (lerpArm pr nr
               (progressAt e (keyframes a ! i) (keyframes a ! (i + 1)))),
             head = Some (lerpHead ph nh
               (progressAt e (keyframes a ! i) (keyframes a ! (i + 1)))),
             expression =
               (if progressAt e (keyframes a ! i) (keyframes a ! (i + 1)) < 1 / 2
                then expression (keyframes a ! i) else expression (keyframes a ! (i + 1)))\<rparr>"
proof -
  define kfs where "kfs = keyframes a"
  have ne: "kfs \<noteq> []" using i by (auto simp add: kfs_def)
  have sur: "surroundingKeyframes e kfs = (kfs ! i, kfs ! (i + 1))"
    using surrounding_inside [OF wf i lo hi] by (simp add: kfs_def)
  have "i < length (keyframes a)" using i by simp
  from wellFormed_nth(1) [OF wf this] wellFormed_nth(1) [OF wf i]
  obtain pl pr ph nl nr nh where
    f: "leftArm (kfs ! i) = Some pl" "leftArm (kfs ! (i + 1)) = Some nl"
       "rightArm (kfs ! i) = Some pr" "rightArm (kfs ! (i + 1)) = Some nr"
       "head (kfs ! i) = Some ph" "head (kfs ! (i + 1)) = Some nh"
    unfolding kfs_def by (meson hasPose_fields)
  from interpolatePose_between [OF kfs_def ne sur f] f show ?thesis
    unfolding kfs_def by blast
qed

lemma interpolatePose_midpoint:
  assumes wf: "wellFormed a" and i: "i + 1 < length (keyframes a)"
    and lt: "timestamp (keyframes a ! i) < timestamp (keyframes a ! (i + 1))"
  shows "\<exists>r pl nl pr nr ph nh.
      interpolatePose (Some a)
        ((timestamp (keyframes a ! i) + timestamp (keyframes a ! (i + 1))) / 2) = Inr r \<and>
      leftArm (keyframes a ! i) = Some pl \<and> leftArm (keyframes a ! (i + 1)) = Some nl \<and>
      rightArm (keyframes a ! i) = Some pr \<and> rightArm (keyframes a ! (i + 1)) = Some nr \<and>
      head (keyframes a ! i) = Some ph \<and> head (keyframes a ! (i + 1)) = Some nh \<and>
      leftArm r = Some (midArm pl nl) \<and> rightArm r = Some (midArm pr nr) \<and>
      head r = Some \<lparr>head_rotation = midValue (head_rotation ph) (head_rotation nh)\<rparr>"
proof -
  define m where "m = (timestamp (keyframes a ! i) + timestamp (keyframes a ! (i + 1))) / 2"
  have m1: "timestamp (keyframes a ! i) < m" and m2: "m \<le> timestamp (keyframes a ! (i + 1))"
    using lt by (simp_all add: m_def field_simps)
  have "i < length (keyframes a)" using i by simp
  from wellFormed_nth(3) [OF wf this] wellFormed_nth(3) [OF wf i] lt
  have prog: "progressAt m (keyframes a ! i) (keyframes a ! (i + 1)) = 1 / 2"
    unfolding m_def by (rule progressAt_midpoint)
  from interpolatePose_inside [OF wf i m1 m2] obtain pl nl pr nr ph nh where
    f: "leftArm (keyframes a ! i) = Some pl" "leftArm (keyframes a ! (i + 1)) = Some nl"
       "rightArm (keyframes a ! i) = Some pr" "rightArm (keyframes a ! (i + 1)) = Some nr"
       "head (keyframes a ! i) = Some ph" "head (keyframes a ! (i + 1)) = Some nh" and
    r: "interpolatePose (Some a) m =
        Inr \<lparr>timestamp = m,
             leftArm = Some (lerpArm pl nl
               (progressAt m (keyframes a ! i) (keyframes a ! (i + 1)))),
             rightArm = Some (lerpArm pr nr
               (progressAt m (keyframes a ! i) (keyframes a ! (i + 1)))),
             head = Some (lerpHead ph nh
               (progressAt m (keyframes a ! i) (keyframes a ! (i + 1)))),
             expression =
               (if progressAt m (keyframes a ! i) (keyframes a ! (i + 1)) < 1 / 2
                then expression (keyframes a ! i) else expression (keyframes a ! (i + 1)))\<rparr>"
    by blast
  define R where "R = \<lparr>timestamp = m, leftArm = Some (midArm pl nl),
      rightArm = Some (midArm pr nr),
      head = Some \<lparr>head_rotation = midValue (head_rotation ph) (head_rotation nh)\<rparr>,
      expression = expression (keyframes a ! (i + 1))\<rparr>"
  have "interpolatePose (Some a) m = Inr R"
    unfolding r prog lerpArm_half lerpHead_half R_def by simp
  moreover have "leftArm R = Some (midArm pl nl)" "rightArm R = Some (midArm pr nr)"
    "head R = Some \<lparr>head_rotation = midValue (head_rotation ph) (head_rotation nh)\<rparr>"
    by (simp_all add: R_def)
  ultimately show ?thesis
    using f unfolding m_def by blast
qed

lemma interpolatePose_step:
  assumes wf: "wellFormed a" and i: "i + 1 < length (keyframes a)"
    and lo: "timestamp (keyframes a ! i) < of_int c"
    and hi: "of_int c \<le> timestamp (keyframes a ! (i + 1))"
  shows "\<exists>r. interpolatePose (Some a) (of_int c) = Inr r \<and>
      expression r =
        (if fl ((of_int c - timestamp (keyframes a ! i)) /
                (timestamp (keyframes a ! (i + 1)) - timestamp (keyframes a ! i))) < 1 / 2
         then expression (keyframes a ! i) else expression (keyframes a ! (i + 1)))"
proof -
  have "i < length (keyframes a)" using i by simp
  from wellFormed_nth(3) [OF wf this] wellFormed_nth(3) [OF wf i] lo hi
  have prog: "progressAt (of_int c) (keyframes a ! i) (keyframes a ! (i + 1)) =
      fl ((of_int c - timestamp (keyframes a ! i)) /
          (timestamp (keyframes a ! (i + 1)) - timestamp (keyframes a ! i)))"
    by (rule progressAt_whole)
  from interpolatePose_inside [OF wf i lo hi] obtain R where
    r: "interpolatePose (Some a) (of_int c) = Inr R" and
    "expression R =
       (if progressAt (of_int c) (keyframes a ! i) (keyframes a ! (i + 1)) < 1 / 2
        then expression (keyframes a ! i) else expression (keyframes a ! (i + 1)))"
    by fastforce
  then show ?thesis
    unfolding prog by blast
qed

lemma interpolatePose_stalled:
  assumes wf: "wellFormed a" and last0: "timestamp (last (keyframes a)) = 0"
  shows "interpolatePose (Some a) e = Inr ((keyframes a ! 0)\<lparr>timestamp := e\<rparr>)"
proof -
  define kfs where "kfs = keyframes a"
  from wf have len: "2 \<le> length kfs" and t0: "timestamp (kfs ! 0) = 0"
    and srt: "sorted (map timestamp kfs)"
    by (simp_all add: wellFormed_def kfs_def)
  have ne: "kfs \<noteq> []" using len by auto
  have tl: "timestamp (kfs ! (length kfs - 1)) = 0"
    using last0 ne by (simp add: kfs_def last_conv_nth)
  have all0: "timestamp (kfs ! j) = 0" if "j < length kfs" for j
  proof -
    have "timestamp (kfs ! 0) \<le> timestamp (kfs ! j)"
      using srt that by (intro sorted_timestamps_nth) simp_all
    moreover have "timestamp (kfs ! j) \<le> timestamp (kfs ! (length kfs - 1))"
      using srt that by (intro sorted_timestamps_nth) simp_all
    ultimately show ?thesis using t0 tl by simp
  qed
  obtain n where sur: "surroundingKeyframes e (keyframes a) = (kfs ! 0, n)"
    and tn: "timestamp n = 0"
  proof (cases "e = 0")
    case True
    have "1 < length kfs" using len by simp
    then have "timestamp (kfs ! 1) = 0" by (rule all0)
    with surrounding_first_pair [OF wf] True that show ?thesis
      by (simp add: kfs_def)
  next
    case False
    have "\<forall>j. 0 \<le> j \<and> j + 1 < length kfs \<longrightarrow>
        \<not> (timestamp (kfs ! j) \<le> e \<and> e \<le> timestamp (kfs ! (j + 1)))"
      using False by (auto simp add: all0)
    then have "findBracket e kfs 0 = None" by (rule findBracket_None)
    then have "surroundingKeyframes e kfs = (kfs ! 0, kfs ! (length kfs - 1))"
      by (simp add: surroundingKeyframes_def)
    with tl that show ?thesis by (simp add: kfs_def)
  qed
  have "progressAt e (kfs ! 0) n = 0"
    using t0 tn by (intro progressAt_equal) simp
  from interpolatePose_rest [OF wf sur this] show ?thesis by (simp add: kfs_def)
qed

text \<open>
  C4, as the code has it. For a well-formed animation (at least two keyframes, each with
  its pose; timestamps whole milliseconds, the first 0, never decreasing; pose numbers
  doubles of moderate size), \<open>interpolatePose\<close> satisfies:
  at \<open>elapsed = 0\<close> it returns the first keyframe exactly;
  at the midpoint in time of two adjacent keyframes with different timestamps the
  progress is exactly 0.5 and each numeric field of the pose (x, y and rotation of both
  arms, rotation of the head) is \<open>prev + (next - prev) * 0.5\<close> as double arithmetic
  computes it, every operation rounded; that is the arithmetic mean of the two values
  whenever their difference and their mean are doubles themselves, as they are for the
  whole numbers of the word table;
  when the two keyframes the search settles on have equal timestamps, the progress is 0
  and the earlier keyframe's pose is returned: so an animation whose timestamps are all
  0 gives its first keyframe's pose at every \<open>elapsed\<close>;
  and at every whole millisecond after one keyframe and up to the next, the expression is
  the earlier keyframe's while the progress, the quotient
  \<open>(elapsed - prev.timestamp) / (next.timestamp - prev.timestamp)\<close> rounded to a double,
  is below 0.5, and the later keyframe's otherwise.
\<close>

theorem interpolatePose_properties:
  "(wellFormed a \<longrightarrow>
     interpolatePose (Some a) 0 = Inr (keyframes a ! 0) \<and>
     (\<forall>i. i + 1 < length (keyframes a) \<longrightarrow>
          timestamp (keyframes a ! i) < timestamp (keyframes a ! (i + 1)) \<longrightarrow>
          (\<exists>r pl nl pr nr ph nh.
             interpolatePose (Some a)
               ((timestamp (keyframes a ! i) + timestamp (keyframes a ! (i + 1))) / 2) = Inr r \<and>
             leftArm (keyframes a ! i) = Some pl \<and> leftArm (keyframes a ! (i + 1)) = Some nl \<and>
             rightArm (keyframes a ! i) = Some pr \<and> rightArm (keyframes a ! (i + 1)) = Some nr \<and>
             head (keyframes a ! i) = Some ph \<and> head (keyframes a ! (i + 1)) = Some nh \<and>
             leftArm r = Some (midArm pl nl) \<and> rightArm r = Some (midArm pr nr) \<and>
             head r = Some \<lparr>head_rotation = midValue (head_rotation ph) (head_rotation nh)\<rparr>)) \<and>
     (\<forall>e p n. surroundingKeyframes e (keyframes a) = (p, n) \<longrightarrow> timestamp p = timestamp n \<longrightarrow>
          progressAt e p n = 0 \<and> interpolatePose (Some a) e = Inr (p\<lparr>timestamp := e\<rparr>)) \<and>
     (timestamp (last (keyframes a)) = 0 \<longrightarrow>
        (\<forall>e. interpolatePose (Some a) e = Inr ((keyframes a ! 0)\<lparr>timestamp := e\<rparr>))) \<and>
     (\<forall>i c. i + 1 < length (keyframes a) \<longrightarrow>
          timestamp (keyframes a ! i) < of_int c \<longrightarrow>
          of_int c \<le> timestamp (keyframes a ! (i + 1)) \<longrightarrow>
          (\<exists>r. interpolatePose (Some a) (of_int c) = Inr r \<and>
               expression r =
                 (if fl ((of_int c - timestamp (keyframes a ! i)) /
                         (timestamp (keyframes a ! (i + 1)) - timestamp (keyframes a ! i)))
                     < 1 / 2
                  then expression (keyframes a ! i)
                  else expression (keyframes a ! (i + 1)))))) \<and>
   (fl (v - u) = v - u \<longrightarrow> fl ((u + v) / 2) = (u + v) / 2 \<longrightarrow> midValue u v = (u + v) / 2)"
proof (intro conjI impI allI)
  assume "wellFormed a"
  then show "interpolatePose (Some a) 0 = Inr (keyframes a ! 0)"
    by (rule interpolatePose_start)
next
  fix i
  assume "wellFormed a" "i + 1 < length (keyframes a)"
    "timestamp (keyframes a ! i) < timestamp (keyframes a ! (i + 1))"
  then show "\<exists>r pl nl pr nr ph nh.
             interpolatePose (Some a)
               ((timestamp (keyframes a ! i) + timestamp (keyframes a ! (i + 1))) / 2) = Inr r \<and>
             leftArm (keyframes a ! i) = Some pl \<and> leftArm (keyframes a ! (i + 1)) = Some nl \<and>
             rightArm (keyframes a ! i) = Some pr \<and> rightArm (keyframes a ! (i + 1)) = Some nr \<and>
             head (keyframes a ! i) = Some ph \<and> head (keyframes a ! (i + 1)) = Some nh \<and>
             leftArm r = Some (midArm pl nl) \<and> rightArm r = Some (midArm pr nr) \<and>
             head r = Some \<lparr>head_rotation = midValue (head_rotation ph) (head_rotation nh)\<rparr>"
    by (rule interpolatePose_midpoint)
next
  fix e and p n :: keyframe
  assume "timestamp p = timestamp n"
  then show "progressAt e p n = 0" by (rule progressAt_equal)
next
  fix e and p n :: keyframe
  assume wf: "wellFormed a" and sur: "surroundingKeyframes e (keyframes a) = (p, n)"
    and "timestamp p = timestamp n"
  then have "progressAt e p n = 0" by (intro progressAt_equal)
  with wf sur show "interpolatePose (Some a) e = Inr (p\<lparr>timestamp := e\<rparr>)"
    by (rule interpolatePose_rest)
next
  fix e
  assume "wellFormed a" "timestamp (last (keyframes a)) = 0"
  then show "interpolatePose (Some a) e = Inr ((keyframes a ! 0)\<lparr>timestamp := e\<rparr>)"
    by (rule interpolatePose_stalled)
next
  fix i c
  assume "wellFormed a" "i + 1 < length (keyframes a)"
    "timestamp (keyframes a ! i) < of_int c" "of_int c \<le> timestamp (keyframes a ! (i + 1))"
  then show "\<exists>r. interpolatePose (Some a) (of_int c) = Inr r \<and>
               expression r =
                 (if fl ((of_int c - timestamp (keyframes a ! i)) /
                         (timestamp (keyframes a ! (i + 1)) - timestamp (keyframes a ! i)))
                     < 1 / 2
                  then expression (keyframes a ! i)
                  else expression (keyframes a ! (i + 1)))"
    by (rule interpolatePose_step)
next
  assume "fl (v - u) = v - u" "fl ((u + v) / 2) = (u + v) / 2"
  then show "midValue u v = (u + v) / 2" by (rule midValue_exact)
qed

text \<open>The numbers of the word table are pose numbers; so is every rest keyframe's 0.\<close>

lemma poseNumber_table:
  "poseNumber 5" "poseNumber (- 5)" "poseNumber 15" "poseNumber (- 15)"
  "poseNumber 20" "poseNumber (- 20)" "poseNumber 25" "poseNumber (- 25)"
  "poseNumber 30" "poseNumber (- 30)" "poseNumber 45" "poseNumber (- 45)"
  "poseNumber 60" "poseNumber (- 60)"
  using poseNumber_of_int [of 5] poseNumber_of_int [of "- 5"]
    poseNumber_of_int [of 15] poseNumber_of_int [of "- 15"]
    poseNumber_of_int [of 20] poseNumber_of_int [of "- 20"]
    poseNumber_of_int [of 25] poseNumber_of_int [of "- 25"]
    poseNumber_of_int [of 30] poseNumber_of_int [of "- 30"]
    poseNumber_of_int [of 45] poseNumber_of_int [of "- 45"]
    poseNumber_of_int [of 60] poseNumber_of_int [of "- 60"]
  by simp_all

lemma keyframeNumbers_rest: "wholeMs t \<Longrightarrow> keyframeNumbers (restKeyframe t)"
  by (simp add: keyframeNumbers_def restKeyframe_def armNumbers_def arm_def poseNumber_0)

lemma textToAnimation_good:
  "textToAnimation rand ''good'' =
     \<lparr>name = ''text-response'',
      keyframes =
        [restKeyframe 0,
         \<lparr>timestamp = 500, leftArm = Some (arm (-25) (-25) 60),
          rightArm = Some (arm 25 (-25) (-60)), head = Some \<lparr>head_rotation = 0\<rparr>,
          expression = happy\<rparr>,
         restKeyframe 1000],
      duration = 1000\<rparr>"
  by (simp add: textToAnimation_def toLowerCase_def toLowerChar_def getGestureForWord_def
      getProperty_def gestures_def getExpressionForWord_def wordKeyframe_def mkGesture_def)

lemma wellFormed_good: "wellFormed (textToAnimation rand ''good'')"
  by (simp add: textToAnimation_good wellFormed_def hasPose_def keyframeNumbers_rest
      wholeMs_def)
     (simp add: restKeyframe_def keyframeNumbers_def wholeMs_def armNumbers_def arm_def
      poseNumber_0 poseNumber_table)

lemma fl_fifth: "fl (1 / 5) = 3602879701896397 / 18014398509481984"
  using fl_eqI [of "- 3" "1 / 5" 7205759403792794] by (simp add: round_even_def)

theorem interpolatePose_properties_witness:
  "wellFormed (textToAnimation (\<lambda>k. 1 / 2) ''good'') \<and>
   interpolatePose (Some (textToAnimation (\<lambda>k. 1 / 2) ''good'')) 0 = Inr (restKeyframe 0) \<and>
   (\<exists>r. interpolatePose (Some (textToAnimation (\<lambda>k. 1 / 2) ''good'')) 250 = Inr r \<and>
        leftArm r = Some \<lparr>arm_x = - (25 / 2), arm_y = - (25 / 2), arm_rotation = 30\<rparr> \<and>
        head r = Some \<lparr>head_rotation = 0\<rparr>) \<and>
   (\<exists>r. interpolatePose (Some (textToAnimation (\<lambda>k. 1 / 2) ''good'')) 100 = Inr r \<and>
        expression r = neutral) \<and>
   (\<exists>r. interpolatePose (Some (textToAnimation (\<lambda>k. 1 / 2) ''good'')) 500 = Inr r \<and>
        expression r = happy) \<and>
   wellFormed \<lparr>name = ''stalled'',
               keyframes = [restKeyframe 0, (restKeyframe 0)\<lparr>expression := happy\<rparr>],
               duration = 0\<rparr> \<and>
   interpolatePose
     (Some \<lparr>name = ''stalled'',
            keyframes = [restKeyframe 0, (restKeyframe 0)\<lparr>expression := happy\<rparr>],
            duration = 0\<rparr>) 7 = Inr (restKeyframe 7) \<and>
   surroundingKeyframes 7 [restKeyframe 0, (restKeyframe 0)\<lparr>expression := happy\<rparr>] =
     (restKeyframe 0, (restKeyframe 0)\<lparr>expression := happy\<rparr>) \<and>
   progressAt 7 (restKeyframe 0) ((restKeyframe 0)\<lparr>expression := happy\<rparr>) = 0"
proof -
  define a where "a = textToAnimation (\<lambda>k. 1 / 2) ''good''"
  define b where "b = \<lparr>name = ''stalled'',
      keyframes = [restKeyframe 0, (restKeyframe 0)\<lparr>expression := happy\<rparr>], duration = 0\<rparr>"
  have ka: "keyframes a =
      [restKeyframe 0,
       \<lparr>timestamp = 500, leftArm = Some (arm (-25) (-25) 60),
        rightArm = Some (arm 25 (-25) (-60)), head = Some \<lparr>head_rotation = 0\<rparr>,
        expression = happy\<rparr>,
       restKeyframe 1000]"
    by (simp add: a_def textToAnimation_good)
  have wfa: "wellFormed a"
    unfolding a_def by (rule wellFormed_good)
  have wfb: "wellFormed b"
    by (simp add: wellFormed_def b_def hasPose_def)
       (simp add: restKeyframe_def keyframeNumbers_def wholeMs_def armNumbers_def arm_def
        poseNumber_0)
  note pa = interpolatePose_properties [of a, THEN conjunct1, THEN mp, OF wfa]
  note pb = interpolatePose_properties [of b, THEN conjunct1, THEN mp, OF wfb]
  have start: "interpolatePose (Some a) 0 = Inr (restKeyframe 0)"
    using pa [THEN conjunct1] by (simp add: ka)
  have "\<exists>r pl nl pr nr ph nh.
             interpolatePose (Some a)
               ((timestamp (keyframes a ! 0) + timestamp (keyframes a ! (0 + 1))) / 2) = Inr r \<and>
             leftArm (keyframes a ! 0) = Some pl \<and> leftArm (keyframes a ! (0 + 1)) = Some nl \<and>
             rightArm (keyframes a ! 0) = Some pr \<and> rightArm (keyframes a ! (0 + 1)) = Some nr \<and>
             head (keyframes a ! 0) = Some ph \<and> head (keyframes a ! (0 + 1)) = Some nh \<and>
             leftArm r = Some (midArm pl nl) \<and> rightArm r = Some (midArm pr nr) \<and>
             head r = Some \<lparr>head_rotation = midValue (head_rotation ph) (head_rotation nh)\<rparr>"
    by (rule pa [THEN conjunct2, THEN conjunct1, THEN spec, THEN mp, THEN mp])
       (simp_all add: ka restKeyframe_def)
  then obtain r where
    r: "interpolatePose (Some a) 250 = Inr r" and
    l: "leftArm r = Some (midArm (arm 0 0 0) (arm (-25) (-25) 60))" and
    h: "head r = Some \<lparr>head_rotation = midValue 0 0\<rparr>"
    by (auto simp add: ka restKeyframe_def)
  have m25: "midValue 0 (- 25) = - (25 / 2)"
    using interpolatePose_properties [where u = 0 and v = "- 25", THEN conjunct2]
      fl_of_int [of "- 25"] fl_half_int [of "- 25"] by simp
  have m60: "midValue 0 60 = 30"
    using interpolatePose_properties [where u = 0 and v = 60, THEN conjunct2]
      fl_of_int [of 60] fl_of_int [of 30] by simp
  have m0: "midValue 0 0 = 0"
    using interpolatePose_properties [where u = 0 and v = 0, THEN conjunct2]
    by (simp add: fl_0)
  have mid: "\<exists>r. interpolatePose (Some a) 250 = Inr r \<and>
        leftArm r = Some \<lparr>arm_x = - (25 / 2), arm_y = - (25 / 2), arm_rotation = 30\<rparr> \<and>
        head r = Some \<lparr>head_rotation = 0\<rparr>"
    using r l h by (simp add: midArm_def arm_def m25 m60 m0)
  have step: "\<exists>r. interpolatePose (Some a) (of_int c) = Inr r \<and>
               expression r =
                 (if fl ((of_int c - timestamp (keyframes a ! 0)) /
                         (timestamp (keyframes a ! (0 + 1)) - timestamp (keyframes a ! 0)))
                     < 1 / 2
                  then expression (keyframes a ! 0)
                  else expression (keyframes a ! (0 + 1)))"
    if "0 < c" "c \<le> 500" for c :: int
    by (rule pa [THEN conjunct2, THEN conjunct2, THEN conjunct2, THEN conjunct2,
          THEN spec, THEN spec, THEN mp, THEN mp, THEN mp])
       (use that in \<open>simp_all add: ka restKeyframe_def\<close>)
  have e100: "\<exists>r. interpolatePose (Some a) 100 = Inr r \<and> expression r = neutral"
    using step [of 100] by (simp add: ka restKeyframe_def fl_fifth)
  have "fl 1 = 1" using fl_of_int [of 1] by simp
  then have e500: "\<exists>r. interpolatePose (Some a) 500 = Inr r \<and> expression r = happy"
    using step [of 500] by (simp add: ka restKeyframe_def)
  have "timestamp (last (keyframes b)) = 0"
    by (simp add: b_def restKeyframe_def)
  then have "interpolatePose (Some b) 7 = Inr ((keyframes b ! 0)\<lparr>timestamp := 7\<rparr>)"
    using pb [THEN conjunct2, THEN conjunct2, THEN conjunct2, THEN conjunct1] by blast
  then have stalled: "interpolatePose (Some b) 7 = Inr (restKeyframe 7)"
    by (simp add: b_def restKeyframe_def)
  have surb: "surroundingKeyframes 7 (keyframes b) =
      (restKeyframe 0, (restKeyframe 0)\<lparr>expression := happy\<rparr>)"
    by (simp add: surroundingKeyframes_def b_def findBracket.simps restKeyframe_def)
  have "timestamp (restKeyframe 0) = timestamp ((restKeyframe 0)\<lparr>expression := happy\<rparr>)"
    by simp
  then have bracket: "progressAt 7 (restKeyframe 0) ((restKeyframe 0)\<lparr>expression := happy\<rparr>) = 0"
    using pb [THEN conjunct2, THEN conjunct2, THEN conjunct1, THEN spec, THEN spec, THEN spec,
        THEN mp, OF surb]
    by blast
  have surb': "surroundingKeyframes 7 [restKeyframe 0, (restKeyframe 0)\<lparr>expression := happy\<rparr>] =
      (restKeyframe 0, (restKeyframe 0)\<lparr>expression := happy\<rparr>)"
    using surb by (simp add: b_def)
  show ?thesis
    using wfa wfb start mid e100 e500 stalled unfolding a_def b_def
    by (simp add: surb' bracket)
qed

text \<open>
  C4 as stated fails in the midpoint clause: the code adds half the rounded difference
  to the earlier value and rounds again, and that need not be the mean. Between two
  fallback poses whose left arms have x = -2.9 and x = 1.5 (the doubles nearest to them),
  the pose at the midpoint, 750 ms, has x = -0.6999999999999997, one unit in the last
  place away from their mean, -0.7.
\<close>

lemma fallback_pair_mid:
  "midValue (- (6530219459687219 / 2251799813685248)) (3 / 2) =
     - (1576259869579673 / 2251799813685248)"
proof -
  have d: "fl (3 / 2 - - (6530219459687219 / 2251799813685248)) =
      2476979795053773 / 562949953421312"
    using fl_eqI [of 2 "9907919180215091 / 2251799813685248" 4953959590107546]
    by (simp add: round_even_def)
  have h: "fl (2476979795053773 / 562949953421312 * (1 / 2)) =
      2476979795053773 / 1125899906842624"
    using fl_grid [of 2476979795053773 "- 50"] by simp
  have s: "fl (- (6530219459687219 / 2251799813685248) + 2476979795053773 / 1125899906842624) =
      - (1576259869579673 / 2251799813685248)"
    using fl_grid [of "- 1576259869579673" "- 51"] by simp
  show ?thesis
    by (simp only: midValue_def d h s)
qed

theorem midpoint_is_not_the_mean:
  "wellFormed
     \<lparr>name = ''text-response'',
      keyframes =
        [restKeyframe 0,
         (restKeyframe 500)
           \<lparr>leftArm := Some (arm (- (6530219459687219 / 2251799813685248)) 0 0)\<rparr>,
         (restKeyframe 1000)\<lparr>leftArm := Some (arm (3 / 2) 0 0)\<rparr>,
         restKeyframe 1500],
      duration = 1500\<rparr> \<and>
   interpolatePose
     (Some \<lparr>name = ''text-response'',
            keyframes =
              [restKeyframe 0,
               (restKeyframe 500)
                 \<lparr>leftArm := Some (arm (- (6530219459687219 / 2251799813685248)) 0 0)\<rparr>,
               (restKeyframe 1000)\<lparr>leftArm := Some (arm (3 / 2) 0 0)\<rparr>,
               restKeyframe 1500],
            duration = 1500\<rparr>) 750 =
     Inr ((restKeyframe 750)
           \<lparr>leftArm := Some (arm (- (1576259869579673 / 2251799813685248)) 0 0)\<rparr>) \<and>
   (- (6530219459687219 / 2251799813685248) + 3 / 2) / 2 \<noteq>
     - (1576259869579673 / (2251799813685248::real))"
proof -
  define a where "a =
     \<lparr>name = ''text-response'',
      keyframes =
        [restKeyframe 0,
         (restKeyframe 500)
           \<lparr>leftArm := Some (arm (- (6530219459687219 / 2251799813685248)) 0 0)\<rparr>,
         (restKeyframe 1000)\<lparr>leftArm := Some (arm (3 / 2) 0 0)\<rparr>,
         restKeyframe 1500],
      duration = 1500\<rparr>"
  have p1: "poseNumber (- (6530219459687219 / 2251799813685248))"
    using fl_grid [of "- 6530219459687219" "- 51"]
    by (intro poseNumber_moderate) simp_all
  have p2: "poseNumber (3 / 2)"
    using fl_half_int [of 3] by (intro poseNumber_moderate) simp_all
  have wf: "wellFormed a"
    by (simp add: a_def wellFormed_def hasPose_def restKeyframe_def keyframeNumbers_def
        wholeMs_def armNumbers_def arm_def poseNumber_0 p1 p2)
  define k1 where "k1 = (restKeyframe 500)
      \<lparr>leftArm := Some (arm (- (6530219459687219 / 2251799813685248)) 0 0)\<rparr>"
  define k2 where "k2 = (restKeyframe 1000)\<lparr>leftArm := Some (arm (3 / 2) 0 0)\<rparr>"
  have ks: "keyframes a = [restKeyframe 0, k1, k2, restKeyframe 1500]"
    by (simp add: a_def k1_def k2_def)
  have ne: "keyframes a \<noteq> []" by (simp add: ks)
  have "surroundingKeyframes 750 (keyframes a) = (keyframes a ! 1, keyframes a ! (1 + 1))"
    by (rule surrounding_inside [OF wf]) (simp_all add: ks k1_def k2_def restKeyframe_def)
  then have sur: "surroundingKeyframes 750 (keyframes a) = (k1, k2)"
    by (simp add: ks)
  have prog: "progressAt 750 k1 k2 = 1 / 2"
    using progressAt_midpoint [of k1 k2]
    by (simp add: k1_def k2_def restKeyframe_def wholeMs_def)
  have zero: "midValue 0 0 = 0"
    by (simp add: midValue_def fl_0)
  have "interpolatePose (Some a) 750 =
     Inr \<lparr>timestamp = 750,
          leftArm = Some (lerpArm (arm (- (6530219459687219 / 2251799813685248)) 0 0)
            (arm (3 / 2) 0 0) (progressAt 750 k1 k2)),
          rightArm = Some (lerpArm (arm 0 0 0) (arm 0 0 0) (progressAt 750 k1 k2)),
          head = Some (lerpHead \<lparr>head_rotation = 0\<rparr> \<lparr>head_rotation = 0\<rparr>
            (progressAt 750 k1 k2)),
          expression = (if progressAt 750 k1 k2 < 1 / 2 then expression k1 else expression k2)\<rparr>"
    by (rule interpolatePose_between [OF refl ne sur])
       (simp_all add: k1_def k2_def restKeyframe_def)
  then have "interpolatePose (Some a) 750 =
     Inr ((restKeyframe 750)
           \<lparr>leftArm := Some (arm (- (1576259869579673 / 2251799813685248)) 0 0)\<rparr>)"
    unfolding prog lerpArm_half lerpHead_half
    by (simp add: midArm_def arm_def zero fallback_pair_mid k2_def restKeyframe_def)
  then show ?thesis
    using wf unfolding a_def by simp
qed

section \<open>AnimationPlayer: playback, supersession and stopping\<close>

lemma interpolatePose_timestamp:
  "interpolatePose ca e = Inr p \<Longrightarrow> timestamp p = e"
  by (auto simp add: interpolatePose_def Let_def split: option.splits if_splits prod.splits)

text \<open>
  What one run of \<open>renderFrame\<close> or \<open>animate\<close> can do to the list of rendered poses:
  nothing, or one more pose, interpolated from the current animation.
\<close>

lemma renderFrame_effect:
  assumes "renderFrame e s = Inr s'"
  shows "currentAnimation s' = currentAnimation s \<and> isAnimating s' = isAnimating s \<and>
         scheduled s' = scheduled s \<and>
         (rendered s' = rendered s \<or>
          (\<exists>p. rendered s' = rendered s @ [p] \<and>
               interpolatePose (currentAnimation s) (timestamp p) = Inr p))"
proof (cases "\<not> canvasReady s \<or> currentAnimation s = None")
  case True
  with assms show ?thesis by (simp add: renderFrame_def)
next
  case False
  with assms obtain p where p: "interpolatePose (currentAnimation s) e = Inr p"
    and s': "s' = s\<lparr>rendered := rendered s @ [p]\<rparr>"
    by (auto simp add: renderFrame_def split: sum.splits)
  from p have "timestamp p = e" by (rule interpolatePose_timestamp)
  with p s' show ?thesis by simp
qed

lemma animate_effect:
  assumes "animate c now s = Inr s'"
  shows "currentAnimation s' = currentAnimation s \<and>
         (rendered s' = rendered s \<or>
          (\<exists>p. rendered s' = rendered s @ [p] \<and>
               interpolatePose (currentAnimation s) (timestamp p) = Inr p))"
proof (cases "isAnimating s")
  case False
  with assms show ?thesis by (auto simp add: animate_def split: option.splits)
next
  case active: True
  show ?thesis
  proof (cases "currentAnimation s")
    case None
    with assms show ?thesis by (auto simp add: animate_def split: bool.splits)
  next
    case (Some a)
    show ?thesis
    proof (cases "now - animationStartTime s \<ge> duration a")
      case True
      with assms active Some show ?thesis by (auto simp add: animate_def)
    next
      case False
      with assms active Some obtain s1 where r: "renderFrame (now - animationStartTime s) s = Inr s1"
        and s': "s' = s1\<lparr>scheduled := scheduled s1 @ [c]\<rparr>"
        by (auto simp add: animate_def Let_def split: sum.splits)
      from renderFrame_effect [OF r] s' show ?thesis by auto
    qed
  qed
qed

lemma animate_inactive:
  "\<not> isAnimating s \<Longrightarrow> animate c now s = Inr (s\<lparr>resolved := resolved s @ [c]\<rparr>)"
  by (simp add: animate_def split: option.splits)

lemma animate_finished:
  "isAnimating s \<Longrightarrow> currentAnimation s = Some a \<Longrightarrow> now - animationStartTime s \<ge> duration a \<Longrightarrow>
     animate c now s = Inr (s\<lparr>isAnimating := False, resolved := resolved s @ [c]\<rparr>)"
  by (simp add: animate_def)

lemma fire_effect:
  "currentAnimation (fire c now s) = currentAnimation s \<and>
   (rendered (fire c now s) = rendered s \<or>
    (\<exists>p. rendered (fire c now s) = rendered s @ [p] \<and>
         interpolatePose (currentAnimation s) (timestamp p) = Inr p))"
proof (cases "c \<in> set (scheduled s)")
  case False
  then show ?thesis by (simp add: fire_def)
next
  case True
  define s1 where "s1 = s\<lparr>scheduled := remove1 c (scheduled s)\<rparr>"
  show ?thesis
  proof (cases "animate c now s1")
    case (Inl e)
    with True show ?thesis by (simp add: fire_def s1_def)
  next
    case (Inr s2)
    with True have "fire c now s = s2" by (simp add: fire_def s1_def)
    with animate_effect [OF Inr] show ?thesis by (simp add: s1_def)
  qed
qed

lemma fire_inactive:
  assumes "\<not> isAnimating s"
  shows "\<not> isAnimating (fire c now s) \<and> rendered (fire c now s) = rendered s \<and>
         set (scheduled (fire c now s)) \<subseteq> set (scheduled s)"
proof (cases "c \<in> set (scheduled s)")
  case False
  with assms show ?thesis by (simp add: fire_def)
next
  case True
  have "\<not> isAnimating (s\<lparr>scheduled := remove1 c (scheduled s)\<rparr>)"
    using assms by simp
  from animate_inactive [OF this, of c now] True assms show ?thesis
    using set_remove1_subset [of c "scheduled s"] by (auto simp add: fire_def)
qed

lemma step_inactive:
  "\<not> isAnimating s \<Longrightarrow> \<not> isPlay ev \<Longrightarrow>
     \<not> isAnimating (step s ev) \<and> rendered (step s ev) = rendered s \<and>
     set (scheduled (step s ev)) \<subseteq> set (scheduled s)"
  by (cases ev) (simp_all add: fire_inactive stopAnimation_def)

lemma run_inactive:
  "\<not> isAnimating s \<Longrightarrow> list_all (\<lambda>ev. \<not> isPlay ev) es \<Longrightarrow>
     \<not> isAnimating (run s es) \<and> rendered (run s es) = rendered s \<and>
     set (scheduled (run s es)) \<subseteq> set (scheduled s)"
proof (induction es arbitrary: s)
  case Nil
  then show ?case by (simp add: run_def)
next
  case (Cons ev es)
  from Cons.prems have ev: "\<not> isPlay ev" and es: "list_all (\<lambda>ev. \<not> isPlay ev) es"
    by simp_all
  note one = step_inactive [OF Cons.prems(1) ev]
  from one have "\<not> isAnimating (step s ev)" by blast
  from Cons.IH [OF this es] one show ?case
    by (auto simp add: run_def)
qed

text \<open>
  While no \<open>playAnimation\<close> is called, the current animation stays what it is and every
  pose added to the rendered ones is interpolated from it.
\<close>

lemma step_same_animation:
  assumes "\<not> isPlay ev" "currentAnimation s = Some a"
  shows "currentAnimation (step s ev) = Some a \<and>
         (\<exists>new. rendered (step s ev) = rendered s @ new \<and>
            (\<forall>p \<in> set new. interpolatePose (Some a) (timestamp p) = Inr p))"
proof (cases ev)
  case (Play b now now')
  with assms show ?thesis by simp
next
  case (Fire c now)
  from fire_effect [of c now s] assms(2) have cur: "currentAnimation (fire c now s) = Some a"
    and "rendered (fire c now s) = rendered s @ [] \<or>
      (\<exists>p. rendered (fire c now s) = rendered s @ [p] \<and>
           interpolatePose (Some a) (timestamp p) = Inr p)"
    by auto
  then have "\<exists>new. rendered (fire c now s) = rendered s @ new \<and>
            (\<forall>p \<in> set new. interpolatePose (Some a) (timestamp p) = Inr p)"
    by (metis empty_iff empty_set set_ConsD)
  with cur Fire show ?thesis by simp
next
  case Stop
  with assms show ?thesis by (simp add: stopAnimation_def)
qed

lemma run_same_animation:
  "list_all (\<lambda>ev. \<not> isPlay ev) es \<Longrightarrow> currentAnimation s = Some a \<Longrightarrow>
     currentAnimation (run s es) = Some a \<and>
     (\<exists>new. rendered (run s es) = rendered s @ new \<and>
        (\<forall>p \<in> set new. interpolatePose (Some a) (timestamp p) = Inr p))"
proof (induction es arbitrary: s)
  case Nil
  then show ?case by (simp add: run_def)
next
  case (Cons ev es)
  from Cons.prems have ev: "\<not> isPlay ev" and es: "list_all (\<lambda>ev. \<not> isPlay ev) es"
    by simp_all
  from step_same_animation [OF ev Cons.prems(2)] obtain new1 where
    cur: "currentAnimation (step s ev) = Some a" and
    r1: "rendered (step s ev) = rendered s @ new1" and
    p1: "\<forall>p \<in> set new1. interpolatePose (Some a) (timestamp p) = Inr p"
    by blast
  from Cons.IH [OF es cur] obtain new2 where
    cur2: "currentAnimation (run (step s ev) es) = Some a" and
    r2: "rendered (run (step s ev) es) = rendered (step s ev) @ new2" and
    p2: "\<forall>p \<in> set new2. interpolatePose (Some a) (timestamp p) = Inr p"
    by blast
  have "rendered (run s (ev # es)) = rendered s @ (new1 @ new2)"
    using r1 r2 by (simp add: run_def)
  moreover have "\<forall>p \<in> set (new1 @ new2). interpolatePose (Some a) (timestamp p) = Inr p"
    using p1 p2 by auto
  moreover have "currentAnimation (run s (ev # es)) = Some a"
    using cur2 by (simp add: run_def)
  ultimately show ?case by blast
qed

lemma playAnimation_effect:
  "currentAnimation (playAnimation a now now' s) = Some a \<and>
   set (scheduled s) \<subseteq> set (scheduled (playAnimation a now now' s)) \<and>
   (\<exists>new. rendered (playAnimation a now now' s) = rendered s @ new \<and>
      (\<forall>p \<in> set new. interpolatePose (Some a) (timestamp p) = Inr p))"
proof -
  define s1 where "s1 = s\<lparr>currentAnimation := Some a, animationStartTime := now,
      isAnimating := True, calls := calls s + 1\<rparr>"
  show ?thesis
  proof (cases "animate (calls s) now' s1")
    case (Inl e)
    then have "playAnimation a now now' s = s1\<lparr>thrown := thrown s1 @ [e]\<rparr>"
      by (simp add: playAnimation_def Let_def s1_def)
    then show ?thesis by (simp add: s1_def)
  next
    case (Inr s2)
    then have eq: "playAnimation a now now' s = s2"
      by (simp add: playAnimation_def Let_def s1_def)
    from animate_effect [OF Inr] have cur: "currentAnimation s2 = Some a"
      and "rendered s2 = rendered s @ [] \<or>
        (\<exists>p. rendered s2 = rendered s @ [p] \<and> interpolatePose (Some a) (timestamp p) = Inr p)"
      by (auto simp add: s1_def)
    then have new: "\<exists>new. rendered s2 = rendered s @ new \<and>
        (\<forall>p \<in> set new. interpolatePose (Some a) (timestamp p) = Inr p)"
      by (metis empty_iff empty_set set_ConsD)
    have "set (scheduled s) \<subseteq> set (scheduled s2)"
    proof (cases "now' - now \<ge> duration a")
      case True
      with Inr show ?thesis by (auto simp add: animate_def s1_def)
    next
      case False
      with Inr obtain s3 where r: "renderFrame (now' - now) s1 = Inr s3"
        and s2: "s2 = s3\<lparr>scheduled := scheduled s3 @ [calls s]\<rparr>"
        by (auto simp add: animate_def s1_def Let_def split: sum.splits)
      from renderFrame_effect [OF r] have "scheduled s3 = scheduled s"
        by (simp add: s1_def)
      with s2 show ?thesis by auto
    qed
    with cur new eq show ?thesis by simp
  qed
qed

text \<open>
  C3, as the code has it. When \<open>playAnimation\<close> is called while an earlier animation is
  still playing, with no \<open>stopAnimation\<close> in between, the new animation takes the place of
  the old one as the player's one current animation (the last writer wins, nothing is
  queued), and from then on, until the next \<open>playAnimation\<close>, every pose handed to the
  render callback is interpolated from the new animation. The earlier playback is not
  stopped: every tick it had scheduled is still scheduled after the call.
\<close>

theorem second_play_supersedes:
  "list_all (\<lambda>ev. \<not> isPlay ev) es \<longrightarrow>
     currentAnimation (run (playAnimation a2 now now' s) es) = Some a2 \<and>
     (\<exists>new. rendered (run (playAnimation a2 now now' s) es) = rendered s @ new \<and>
        (\<forall>p \<in> set new. interpolatePose (Some a2) (timestamp p) = Inr p)) \<and>
     set (scheduled s) \<subseteq> set (scheduled (playAnimation a2 now now' s))"
proof
  assume es: "list_all (\<lambda>ev. \<not> isPlay ev) es"
  define s2 where "s2 = playAnimation a2 now now' s"
  from playAnimation_effect [of a2 now now' s] obtain new1 where
    cur: "currentAnimation s2 = Some a2" and
    sch: "set (scheduled s) \<subseteq> set (scheduled s2)" and
    r1: "rendered s2 = rendered s @ new1" and
    p1: "\<forall>p \<in> set new1. interpolatePose (Some a2) (timestamp p) = Inr p"
    unfolding s2_def by blast
  from run_same_animation [OF es cur] obtain new2 where
    cur2: "currentAnimation (run s2 es) = Some a2" and
    r2: "rendered (run s2 es) = rendered s2 @ new2" and
    p2: "\<forall>p \<in> set new2. interpolatePose (Some a2) (timestamp p) = Inr p"
    by blast
  have "rendered (run s2 es) = rendered s @ (new1 @ new2)"
    using r1 r2 by simp
  moreover have "\<forall>p \<in> set (new1 @ new2). interpolatePose (Some a2) (timestamp p) = Inr p"
    using p1 p2 by auto
  ultimately have "\<exists>new. rendered (run s2 es) = rendered s @ new \<and>
        (\<forall>p \<in> set new. interpolatePose (Some a2) (timestamp p) = Inr p)"
    by blast
  with cur2 sch show "currentAnimation (run (playAnimation a2 now now' s) es) = Some a2 \<and>
     (\<exists>new. rendered (run (playAnimation a2 now now' s) es) = rendered s @ new \<and>
        (\<forall>p \<in> set new. interpolatePose (Some a2) (timestamp p) = Inr p)) \<and>
     set (scheduled s) \<subseteq> set (scheduled (playAnimation a2 now now' s))"
    unfolding s2_def by blast
qed

text \<open>
  C5, as the code has it. A tick that finds the elapsed time at or beyond the duration of the animation
  (a scheduled one, or the first one, which \<open>playAnimation\<close> runs itself) leaves the
  player inactive, renders nothing and is not scheduled again; \<open>stopAnimation\<close> leaves
  the player inactive too, can be called in any state and, called twice, does what it
  does called once. From an inactive player, whatever ticks fire and however often
  \<open>stopAnimation\<close> is called, as long as \<open>playAnimation\<close> is not called again: the player
  stays inactive, no pose is rendered, and no tick is scheduled that was not scheduled
  before. That covers the ticks already scheduled when the player was stopped, up to the
  next \<open>playAnimation\<close> and no further.
\<close>

theorem stopped_player_stays_silent:
  "(isAnimating s \<longrightarrow> currentAnimation s = Some a \<longrightarrow> now - animationStartTime s \<ge> duration a \<longrightarrow>
      c \<in> set (scheduled s) \<longrightarrow>
      \<not> isAnimating (fire c now s) \<and> rendered (fire c now s) = rendered s \<and>
      scheduled (fire c now s) = remove1 c (scheduled s)) \<and>
   \<not> isAnimating (stopAnimation s) \<and> rendered (stopAnimation s) = rendered s \<and>
   stopAnimation (stopAnimation s) = stopAnimation s \<and>
   (\<not> isAnimating s \<longrightarrow> list_all (\<lambda>ev. \<not> isPlay ev) es \<longrightarrow>
      \<not> isAnimating (run s es) \<and> rendered (run s es) = rendered s \<and>
      set (scheduled (run s es)) \<subseteq> set (scheduled s)) \<and>
   (seen - began \<ge> duration b \<longrightarrow>
      \<not> isAnimating (playAnimation b began seen s) \<and>
      rendered (playAnimation b began seen s) = rendered s \<and>
      scheduled (playAnimation b began seen s) = scheduled s)"
proof -
  have "\<not> isAnimating (fire c now s) \<and> rendered (fire c now s) = rendered s \<and>
      scheduled (fire c now s) = remove1 c (scheduled s)"
    if "isAnimating s" "currentAnimation s = Some a" "now - animationStartTime s \<ge> duration a"
      "c \<in> set (scheduled s)"
  proof -
    have "animate c now (s\<lparr>scheduled := remove1 c (scheduled s)\<rparr>) =
        Inr (s\<lparr>scheduled := remove1 c (scheduled s), isAnimating := False,
              resolved := resolved s @ [c]\<rparr>)"
      using that(1-3) by (simp add: animate_finished)
    with that(4) show ?thesis by (simp add: fire_def)
  qed
  moreover have "\<not> isAnimating (stopAnimation s) \<and> rendered (stopAnimation s) = rendered s \<and>
      stopAnimation (stopAnimation s) = stopAnimation s"
    by (simp add: stopAnimation_def)
  moreover have "\<not> isAnimating (run s es) \<and> rendered (run s es) = rendered s \<and>
      set (scheduled (run s es)) \<subseteq> set (scheduled s)"
    if "\<not> isAnimating s" "list_all (\<lambda>ev. \<not> isPlay ev) es"
    using that by (rule run_inactive)
  moreover have "seen - began \<ge> duration b \<longrightarrow>
      \<not> isAnimating (playAnimation b began seen s) \<and>
      rendered (playAnimation b began seen s) = rendered s \<and>
      scheduled (playAnimation b began seen s) = scheduled s"
    by (simp add: playAnimation_def animate_def Let_def)
  ultimately show ?thesis by blast
qed

text \<open>
  A run used below: on a player with its canvas, \<open>hello\<close> is played at time 0 and, while
  it is playing, \<open>help\<close> at time 100.
\<close>

lemma textToAnimation_help:
  "textToAnimation rand ''help'' =
     \<lparr>name = ''text-response'',
      keyframes =
        [restKeyframe 0,
         \<lparr>timestamp = 500, leftArm = Some (arm 0 (-30) 0),
          rightArm = Some (arm 0 (-30) 0), head = Some \<lparr>head_rotation = 5\<rparr>,
          expression = neutral\<rparr>,
         restKeyframe 1000],
      duration = 1000\<rparr>"
  by (simp add: textToAnimation_def toLowerCase_def toLowerChar_def getGestureForWord_def
      getProperty_def gestures_def getExpressionForWord_def wordKeyframe_def mkGesture_def)

lemma wellFormed_hello: "wellFormed (textToAnimation rand ''hello'')"
  by (simp add: textToAnimation_hello wellFormed_def hasPose_def)
     (simp add: restKeyframe_def keyframeNumbers_def wholeMs_def armNumbers_def arm_def
      poseNumber_0 poseNumber_table)

lemma wellFormed_help: "wellFormed (textToAnimation rand ''help'')"
  by (simp add: textToAnimation_help wellFormed_def hasPose_def)
     (simp add: restKeyframe_def keyframeNumbers_def wholeMs_def armNumbers_def arm_def
      poseNumber_0 poseNumber_table)

lemma play_hello:
  "playAnimation (textToAnimation rand ''hello'') 0 0 (initializeCanvas newPlayer) =
     \<lparr>canvasReady = True, currentAnimation = Some (textToAnimation rand ''hello''),
      animationStartTime = 0, isAnimating = True, calls = 1, scheduled = [0], resolved = [],
      rendered = [restKeyframe 0], thrown = []\<rparr>"
proof -
  have "interpolatePose (Some (textToAnimation rand ''hello'')) 0 = Inr (restKeyframe 0)"
    using interpolatePose_start [OF wellFormed_hello, of rand]
    by (simp add: textToAnimation_hello)
  moreover have "duration (textToAnimation rand ''hello'') = 1000"
    by (simp add: textToAnimation_hello)
  ultimately show ?thesis
    by (simp add: playAnimation_def animate_def renderFrame_def initializeCanvas_def
        newPlayer_def Let_def)
qed

lemma play_help_over_hello:
  "playAnimation (textToAnimation rand ''help'') 100 100
     (playAnimation (textToAnimation rand ''hello'') 0 0 (initializeCanvas newPlayer)) =
     \<lparr>canvasReady = True, currentAnimation = Some (textToAnimation rand ''help''),
      animationStartTime = 100, isAnimating = True, calls = 2, scheduled = [0, 1],
      resolved = [], rendered = [restKeyframe 0, restKeyframe 0], thrown = []\<rparr>"
proof -
  have "interpolatePose (Some (textToAnimation rand ''help'')) 0 = Inr (restKeyframe 0)"
    using interpolatePose_start [OF wellFormed_help, of rand]
    by (simp add: textToAnimation_help)
  moreover have "duration (textToAnimation rand ''help'') = 1000"
    by (simp add: textToAnimation_help)
  ultimately show ?thesis
    unfolding play_hello
    by (simp add: playAnimation_def animate_def renderFrame_def Let_def)
qed

lemma play_help_after_stop:
  "playAnimation (textToAnimation rand ''help'') 50 50
     (stopAnimation
        (playAnimation (textToAnimation rand ''hello'') 0 0 (initializeCanvas newPlayer))) =
     \<lparr>canvasReady = True, currentAnimation = Some (textToAnimation rand ''help''),
      animationStartTime = 50, isAnimating = True, calls = 2, scheduled = [0, 1],
      resolved = [], rendered = [restKeyframe 0, restKeyframe 0], thrown = []\<rparr>"
proof -
  have "interpolatePose (Some (textToAnimation rand ''help'')) 0 = Inr (restKeyframe 0)"
    using interpolatePose_start [OF wellFormed_help, of rand]
    by (simp add: textToAnimation_help)
  moreover have "duration (textToAnimation rand ''help'') = 1000"
    by (simp add: textToAnimation_help)
  ultimately show ?thesis
    unfolding play_hello
    by (simp add: playAnimation_def stopAnimation_def animate_def renderFrame_def Let_def)
qed

text \<open>
  C3 as stated fails: the earlier playback is not stopped. After the second
  \<open>playAnimation\<close> the tick of the first call (call 0) is still scheduled next to the tick
  of the second (call 1); when it fires, 16 ms later, it is no no-op: it renders a pose
  and schedules itself again, and the promise of the first call is still unresolved.
\<close>

theorem second_play_keeps_first_loop:
  "scheduled (run (initializeCanvas newPlayer)
     [Play (textToAnimation (\<lambda>k. 1 / 2) ''hello'') 0 0,
      Play (textToAnimation (\<lambda>k. 1 / 2) ''help'') 100 100]) = [0, 1] \<and>
   length (rendered (run (initializeCanvas newPlayer)
     [Play (textToAnimation (\<lambda>k. 1 / 2) ''hello'') 0 0,
      Play (textToAnimation (\<lambda>k. 1 / 2) ''help'') 100 100])) = 2 \<and>
   length (rendered (run (initializeCanvas newPlayer)
     [Play (textToAnimation (\<lambda>k. 1 / 2) ''hello'') 0 0,
      Play (textToAnimation (\<lambda>k. 1 / 2) ''help'') 100 100,
      Fire 0 116])) = 3 \<and>
   scheduled (run (initializeCanvas newPlayer)
     [Play (textToAnimation (\<lambda>k. 1 / 2) ''hello'') 0 0,
      Play (textToAnimation (\<lambda>k. 1 / 2) ''help'') 100 100,
      Fire 0 116]) = [1, 0] \<and>
   resolved (run (initializeCanvas newPlayer)
     [Play (textToAnimation (\<lambda>k. 1 / 2) ''hello'') 0 0,
      Play (textToAnimation (\<lambda>k. 1 / 2) ''help'') 100 100,
      Fire 0 116]) = []"
proof -
  obtain p where "interpolatePose (Some (textToAnimation (\<lambda>k. 1 / 2) ''help'')) 16 = Inr p"
    using interpolatePose_defined [OF wellFormed_help] by blast
  moreover have "duration (textToAnimation (\<lambda>k. 1 / 2) ''help'') = 1000"
    by (simp add: textToAnimation_help)
  ultimately show ?thesis
    unfolding run_def foldl.simps step.simps play_help_over_hello
    by (simp add: fire_def animate_def renderFrame_def Let_def)
qed

text \<open>
  C5 as stated fails once \<open>playAnimation\<close> is called again. \<open>hello\<close> is played at time 0
  and stopped: the player is inactive and the tick of call 0 is still scheduled. \<open>help\<close>
  is played at time 50. When the tick scheduled before the stop fires, at time 66, it
  finds the player active: it renders a pose and schedules itself again.
\<close>

theorem tick_from_before_stop_renders_again:
  "scheduled (run (initializeCanvas newPlayer)
     [Play (textToAnimation (\<lambda>k. 1 / 2) ''hello'') 0 0, Stop]) = [0] \<and>
   \<not> isAnimating (run (initializeCanvas newPlayer)
     [Play (textToAnimation (\<lambda>k. 1 / 2) ''hello'') 0 0, Stop]) \<and>
   length (rendered (run (initializeCanvas newPlayer)
     [Play (textToAnimation (\<lambda>k. 1 / 2) ''hello'') 0 0, Stop,
      Play (textToAnimation (\<lambda>k. 1 / 2) ''help'') 50 50])) = 2 \<and>
   length (rendered (run (initializeCanvas newPlayer)
     [Play (textToAnimation (\<lambda>k. 1 / 2) ''hello'') 0 0, Stop,
      Play (textToAnimation (\<lambda>k. 1 / 2) ''help'') 50 50,
      Fire 0 66])) = 3 \<and>
   scheduled (run (initializeCanvas newPlayer)
     [Play (textToAnimation (\<lambda>k. 1 / 2) ''hello'') 0 0, Stop,
      Play (textToAnimation (\<lambda>k. 1 / 2) ''help'') 50 50,
      Fire 0 66]) = [1, 0] \<and>
   isAnimating (run (initializeCanvas newPlayer)
     [Play (textToAnimation (\<lambda>k. 1 / 2) ''hello'') 0 0, Stop,
      Play (textToAnimation (\<lambda>k. 1 / 2) ''help'') 50 50,
      Fire 0 66])"
proof -
  obtain p where "interpolatePose (Some (textToAnimation (\<lambda>k. 1 / 2) ''help'')) 16 = Inr p"
    using interpolatePose_defined [OF wellFormed_help] by blast
  moreover have "duration (textToAnimation (\<lambda>k. 1 / 2) ''help'') = 1000"
    by (simp add: textToAnimation_help)
  moreover have "run (initializeCanvas newPlayer)
     [Play (textToAnimation (\<lambda>k. 1 / 2) ''hello'') 0 0, Stop] =
     \<lparr>canvasReady = True, currentAnimation = Some (textToAnimation (\<lambda>k. 1 / 2) ''hello''),
      animationStartTime = 0, isAnimating = False, calls = 1, scheduled = [0], resolved = [],
      rendered = [restKeyframe 0], thrown = []\<rparr>"
    unfolding run_def foldl.simps step.simps play_hello by (simp add: stopAnimation_def)
  ultimately show ?thesis
    unfolding run_def foldl.simps step.simps play_help_after_stop
    by (simp add: fire_def animate_def renderFrame_def Let_def)
qed

theorem second_play_supersedes_witness:
  "isAnimating (playAnimation (textToAnimation (\<lambda>k. 1 / 2) ''hello'') 0 0
     (initializeCanvas newPlayer)) \<and>
   list_all (\<lambda>ev. \<not> isPlay ev) [Fire 0 116, Fire 1 116, Stop, Fire 0 132] \<and>
   currentAnimation
     (run (playAnimation (textToAnimation (\<lambda>k. 1 / 2) ''help'') 100 100
        (playAnimation (textToAnimation (\<lambda>k. 1 / 2) ''hello'') 0 0
           (initializeCanvas newPlayer)))
        [Fire 0 116, Fire 1 116, Stop, Fire 0 132]) =
     Some (textToAnimation (\<lambda>k. 1 / 2) ''help'') \<and>
   (\<exists>new.
      rendered
        (run (playAnimation (textToAnimation (\<lambda>k. 1 / 2) ''help'') 100 100
           (playAnimation (textToAnimation (\<lambda>k. 1 / 2) ''hello'') 0 0
              (initializeCanvas newPlayer)))
           [Fire 0 116, Fire 1 116, Stop, Fire 0 132]) = restKeyframe 0 # new \<and>
      (\<forall>p \<in> set new.
         interpolatePose (Some (textToAnimation (\<lambda>k. 1 / 2) ''help'')) (timestamp p) = Inr p)) \<and>
   0 \<in> set (scheduled
     (playAnimation (textToAnimation (\<lambda>k. 1 / 2) ''help'') 100 100
        (playAnimation (textToAnimation (\<lambda>k. 1 / 2) ''hello'') 0 0
           (initializeCanvas newPlayer))))"
  using second_play_supersedes [of "[Fire 0 116, Fire 1 116, Stop, Fire 0 132]"
      "textToAnimation (\<lambda>k. 1 / 2) ''help''" 100 100
      "playAnimation (textToAnimation (\<lambda>k. 1 / 2) ''hello'') 0 0 (initializeCanvas newPlayer)"]
  by (simp add: play_hello)

theorem stopped_player_stays_silent_witness:
  "isAnimating (playAnimation (textToAnimation (\<lambda>k. 1 / 2) ''hello'') 0 0
     (initializeCanvas newPlayer)) \<and>
   \<not> isAnimating (fire 0 1000 (playAnimation (textToAnimation (\<lambda>k. 1 / 2) ''hello'') 0 0
     (initializeCanvas newPlayer))) \<and>
   rendered (fire 0 1000 (playAnimation (textToAnimation (\<lambda>k. 1 / 2) ''hello'') 0 0
     (initializeCanvas newPlayer))) = [restKeyframe 0] \<and>
   scheduled (fire 0 1000 (playAnimation (textToAnimation (\<lambda>k. 1 / 2) ''hello'') 0 0
     (initializeCanvas newPlayer))) = [] \<and>
   list_all (\<lambda>ev. \<not> isPlay ev) [Fire 0 16, Stop, Fire 0 32] \<and>
   rendered (run (stopAnimation (playAnimation (textToAnimation (\<lambda>k. 1 / 2) ''hello'') 0 0
     (initializeCanvas newPlayer))) [Fire 0 16, Stop, Fire 0 32]) = [restKeyframe 0] \<and>
   \<not> isAnimating (run (stopAnimation (playAnimation (textToAnimation (\<lambda>k. 1 / 2) ''hello'') 0 0
     (initializeCanvas newPlayer))) [Fire 0 16, Stop, Fire 0 32]) \<and>
   \<not> isAnimating (playAnimation (textToAnimation (\<lambda>k. 1 / 2) ''hello'') 0 1000
     (initializeCanvas newPlayer))"
proof -
  define s where "s = playAnimation (textToAnimation (\<lambda>k. 1 / 2) ''hello'') 0 0
     (initializeCanvas newPlayer)"
  have s: "s = \<lparr>canvasReady = True,
      currentAnimation = Some (textToAnimation (\<lambda>k. 1 / 2) ''hello''),
      animationStartTime = 0, isAnimating = True, calls = 1, scheduled = [0], resolved = [],
      rendered = [restKeyframe 0], thrown = []\<rparr>"
    by (simp add: s_def play_hello)
  have d: "duration (textToAnimation (\<lambda>k. 1 / 2) ''hello'') = 1000"
    by (simp add: textToAnimation_hello)
  have "\<not> isAnimating (fire 0 1000 s) \<and> rendered (fire 0 1000 s) = rendered s \<and>
      scheduled (fire 0 1000 s) = remove1 0 (scheduled s)"
    using stopped_player_stays_silent [of s "textToAnimation (\<lambda>k. 1 / 2) ''hello''" 1000 0 "[]"]
    by (simp add: s d)
  moreover have "\<not> isAnimating (run (stopAnimation s) [Fire 0 16, Stop, Fire 0 32]) \<and>
      rendered (run (stopAnimation s) [Fire 0 16, Stop, Fire 0 32]) = rendered (stopAnimation s)"
    using stopped_player_stays_silent [of "stopAnimation s" "textToAnimation (\<lambda>k. 1 / 2) ''hello''"
        1000 0 "[Fire 0 16, Stop, Fire 0 32]"]
    by (simp add: stopAnimation_def)
  moreover have "\<not> isAnimating (playAnimation (textToAnimation (\<lambda>k. 1 / 2) ''hello'') 0 1000
     (initializeCanvas newPlayer))"
    using stopped_player_stays_silent [where s = "initializeCanvas newPlayer"
        and b = "textToAnimation (\<lambda>k. 1 / 2) ''hello''" and began = 0 and seen = 1000]
    by (simp add: d)
  ultimately show ?thesis
    unfolding s_def [symmetric] by (simp add: s stopAnimation_def)
qed

end
